theory Spec2Isabelle
  imports Complex_Main
begin

section \<open>JavaScript values read from the API\<close>

text \<open>
  The transfer records and the entity come out of \<^verbatim>\<open>resp.json()\<close>, so every field the
  program reads is a JSON value, or \<^verbatim>\<open>undefined\<close> when the field is absent.  A number is
  kept as the text \<^verbatim>\<open>String(v)\<close> gives for it: the program only compares such values with
  \<^verbatim>\<open>===\<close>, tests their truthiness and puts them into template literals, and on the finite
  numbers of a JSON document two numbers are \<^verbatim>\<open>===\<close> exactly when they print alike.  An
  object lists its properties, each name once.
\<close>

datatype jsval =
    JUndefined
  | JNull
  | JBool bool
  | JNum string
  | JStr string
  | JArr "jsval list"
  | JObj "(string \<times> jsval) list"

datatype error = TypeError | RequestError string

text \<open>
  \<^verbatim>\<open>v.p\<close> for the property names the program reads (\<^verbatim>\<open>arkhamEntity\<close>, \<^verbatim>\<open>arkhamLabel\<close>,
  \<^verbatim>\<open>name\<close>, \<^verbatim>\<open>address\<close>, \<^verbatim>\<open>chain\<close>, \<^verbatim>\<open>fromAddressOwner\<close>, \<^verbatim>\<open>fromAddress\<close>): none of them
  is defined on the prototype of a string, number, boolean or array, so only an object can
  answer with something else than \<^verbatim>\<open>undefined\<close>; reading a property of \<^verbatim>\<open>null\<close> or
  \<^verbatim>\<open>undefined\<close> throws a TypeError.
\<close>

fun get_prop :: "jsval \<Rightarrow> string \<Rightarrow> error + jsval" where
  "get_prop JUndefined p = Inl TypeError"
| "get_prop JNull p = Inl TypeError"
| "get_prop (JObj kvs) p = (case map_of kvs p of None \<Rightarrow> Inr JUndefined | Some v \<Rightarrow> Inr v)"
| "get_prop v p = Inr JUndefined"

text \<open>Optional chaining \<^verbatim>\<open>v?.p\<close>: \<^verbatim>\<open>undefined\<close> on \<^verbatim>\<open>null\<close> and \<^verbatim>\<open>undefined\<close>, never an error.\<close>

fun opt_prop :: "jsval \<Rightarrow> string \<Rightarrow> jsval" where
  "opt_prop (JObj kvs) p = (case map_of kvs p of None \<Rightarrow> JUndefined | Some v \<Rightarrow> v)"
| "opt_prop v p = JUndefined"

text \<open>
  Strict equality.  Objects and arrays are equal only to themselves; the two sides the
  program compares come from different JSON documents, so they are never the same object.
\<close>

fun strict_eq :: "jsval \<Rightarrow> jsval \<Rightarrow> bool" where
  "strict_eq JUndefined JUndefined = True"
| "strict_eq JNull JNull = True"
| "strict_eq (JBool a) (JBool b) = (a = b)"
| "strict_eq (JNum a) (JNum b) = (a = b)"
| "strict_eq (JStr a) (JStr b) = (a = b)"
| "strict_eq v w = False"

fun truthy :: "jsval \<Rightarrow> bool" where
  "truthy JUndefined = False"
| "truthy JNull = False"
| "truthy (JBool b) = b"
| "truthy (JNum n) = (n \<noteq> ''0'')"
| "truthy (JStr s) = (s \<noteq> [])"
| "truthy v = True"

text \<open>\<^verbatim>\<open>Array.prototype.join\<close> on strings.\<close>

fun join :: "string \<Rightarrow> string list \<Rightarrow> string" where
  "join sep [] = []"
| "join sep [x] = x"
| "join sep (x # y # ys) = x @ sep @ join sep (y # ys)"

text \<open>
  \<^verbatim>\<open>String(v)\<close>, which is also what a template literal does with \<^verbatim>\<open>${v}\<close>.  An
  object is converted through its \<^verbatim>\<open>toString\<close>.  An object of a JSON document inherits
  the one of \<^verbatim>\<open>Object.prototype\<close>, which answers \<^verbatim>\<open>[object Object]\<close>, unless it has a
  property of that name of its own.  The value of such a property is JSON data and so no
  function; \<^verbatim>\<open>valueOf\<close> is tried next and is no function either or gives back the object,
  and the conversion throws a TypeError.  An array joins the conversions of its elements
  with commas, from left to right, \<^verbatim>\<open>null\<close> and \<^verbatim>\<open>undefined\<close> counting as the empty text;
  it throws when the conversion of an element does.
\<close>

fun to_string :: "jsval \<Rightarrow> error + string"
  and join_elems :: "jsval list \<Rightarrow> error + string list" where
  "to_string JUndefined = Inr ''undefined''"
| "to_string JNull = Inr ''null''"
| "to_string (JBool b) = Inr (if b then ''true'' else ''false'')"
| "to_string (JNum n) = Inr n"
| "to_string (JStr s) = Inr s"
| "to_string (JArr vs) =
     (case join_elems vs of Inl e \<Rightarrow> Inl e | Inr ss \<Rightarrow> Inr (join '','' ss))"
| "to_string (JObj kvs) =
     (if map_of kvs ''toString'' = None then Inr ''[object Object]'' else Inl TypeError)"
| "join_elems [] = Inr []"
| "join_elems (v # vs) =
     (case (if v = JUndefined \<or> v = JNull then Inr [] else to_string v) of
        Inl e \<Rightarrow> Inl e
      | Inr s \<Rightarrow> (case join_elems vs of Inl e \<Rightarrow> Inl e | Inr ss \<Rightarrow> Inr (s # ss)))"

section \<open>The extractor\<close>

record row =
  chain :: jsval
  address :: jsval
  arkm_url :: string
  label :: jsval

text \<open>
  The accumulation object \<^verbatim>\<open>merged\<close>: its own properties in the order JavaScript
  enumerates them.  Every key written by the program contains an \<^verbatim>\<open>@\<close>, so none is an
  array index and the order is the order of first insertion.
\<close>

type_synonym merged = "(string \<times> row) list"

text \<open>\<^verbatim>\<open>target[key] = v\<close>: an existing property keeps its place, a new one goes last.\<close>

fun obj_set :: "string \<Rightarrow> 'v \<Rightarrow> (string \<times> 'v) list \<Rightarrow> (string \<times> 'v) list" where
  "obj_set k v [] = [(k, v)]"
| "obj_set k v ((k', v') # m) = (if k' = k then (k, v) # m else (k', v') # obj_set k v m)"

text \<open>The key \<^verbatim>\<open>`${address}@${chain}`\<close>: the address is converted first.\<close>

definition dedup_key :: "jsval \<Rightarrow> jsval \<Rightarrow> error + string" where
  "dedup_key a c =
     (case to_string a of
        Inl e \<Rightarrow> Inl e
      | Inr sa \<Rightarrow> (case to_string c of Inl e \<Rightarrow> Inl e | Inr sc \<Rightarrow> Inr (sa @ ''@'' @ sc)))"

text \<open>The object literal stored under the key, with the template literal in it.\<close>

definition make_row :: "jsval \<Rightarrow> jsval \<Rightarrow> jsval \<Rightarrow> error + row" where
  "make_row c a l =
     (case to_string a of
        Inl e \<Rightarrow> Inl e
      | Inr sa \<Rightarrow>
          Inr \<lparr>chain = c, address = a,
               arkm_url = ''https://intel.arkm.com/explorer/address/'' @ sa, label = l\<rparr>)"

text \<open>
  The function changes \<^verbatim>\<open>target\<close> in its last step only, the assignment, so an exception
  (\<open>Inl\<close>) leaves \<^verbatim>\<open>target\<close> as it was.
\<close>

definition extractHotWallet :: "jsval \<Rightarrow> merged \<Rightarrow> jsval \<Rightarrow> error + merged" where
  "extractHotWallet addrInfo target expectedEntityName =
     (let entityName = opt_prop (opt_prop addrInfo ''arkhamEntity'') ''name'';
          labelName = opt_prop (opt_prop addrInfo ''arkhamLabel'') ''name''
      in if strict_eq entityName expectedEntityName \<and> strict_eq labelName (JStr ''Hot Wallet'')
         then (case get_prop addrInfo ''address'' of
                 Inl e \<Rightarrow> Inl e
               | Inr a \<Rightarrow>
                  (case get_prop addrInfo ''chain'' of
                     Inl e \<Rightarrow> Inl e
                   | Inr c \<Rightarrow>
                      (case dedup_key a c of
                         Inl e \<Rightarrow> Inl e
                       | Inr key \<Rightarrow>
                          (case make_row c a labelName of
                             Inl e \<Rightarrow> Inl e
                           | Inr r \<Rightarrow> Inr (obj_set key r target)))))
         else Inr target)"

text \<open>
  One element of a page, \<^verbatim>\<open>tx => { if(tx.fromAddressOwner){ ... } else { ... } }\<close>: the
  owner's record when it is truthy, the sending address's own record otherwise.
\<close>

definition extract_tx :: "jsval \<Rightarrow> merged \<Rightarrow> jsval \<Rightarrow> error + merged" where
  "extract_tx tx target expectedEntityName =
     (case get_prop tx ''fromAddressOwner'' of
        Inl e \<Rightarrow> Inl e
      | Inr owner \<Rightarrow>
          if truthy owner then extractHotWallet owner target expectedEntityName
          else (case get_prop tx ''fromAddress'' of
                  Inl e \<Rightarrow> Inl e
                | Inr a \<Rightarrow> extractHotWallet a target expectedEntityName))"

text \<open>
  \<^verbatim>\<open>transfers.forEach(...)\<close>; an exception leaves the loop at once, and with it the
  \<^verbatim>\<open>try\<close> block in which \<^verbatim>\<open>merged\<close> lives.
\<close>

fun forEach_tx :: "jsval list \<Rightarrow> merged \<Rightarrow> jsval \<Rightarrow> error + merged" where
  "forEach_tx [] target n = Inr target"
| "forEach_tx (tx # txs) target n =
     (case extract_tx tx target n of
        Inl e \<Rightarrow> Inl e
      | Inr target' \<Rightarrow> forEach_tx txs target' n)"

text \<open>A run of calls of \<^verbatim>\<open>extractHotWallet\<close> on the same object, one per record.\<close>

fun extract_all :: "jsval list \<Rightarrow> merged \<Rightarrow> jsval \<Rightarrow> error + merged" where
  "extract_all [] target n = Inr target"
| "extract_all (r # rs) target n =
     (case extractHotWallet r target n of
        Inl e \<Rightarrow> Inl e
      | Inr target' \<Rightarrow> extract_all rs target' n)"

section \<open>CSV export\<close>

definition dquote :: char where "dquote = CHR 0x22"
definition comma :: char where "comma = CHR 0x2C"
definition newline :: char where "newline = CHR 0x0A"

text \<open>\<^verbatim>\<open>/[",\n]/.test(s) ? '"' + s.replace(/"/g, '""') + '"' : s\<close>\<close>

definition csv_escape :: "string \<Rightarrow> string" where
  "csv_escape s = concat (map (\<lambda>c. if c = dquote then [dquote, dquote] else [c]) s)"

definition csv_field :: "string \<Rightarrow> string" where
  "csv_field s =
     (if dquote \<in> set s \<or> comma \<in> set s \<or> newline \<in> set s
      then [dquote] @ csv_escape s @ [dquote] else s)"

text \<open>
  \<^verbatim>\<open>String(v)\<close> for the four values of a row, in the order in which \<^verbatim>\<open>map\<close> takes them.
\<close>

definition row_fields :: "row \<Rightarrow> error + string list" where
  "row_fields r =
     (case to_string (chain r) of
        Inl e \<Rightarrow> Inl e
      | Inr c \<Rightarrow>
         (case to_string (address r) of
            Inl e \<Rightarrow> Inl e
          | Inr a \<Rightarrow>
             (case to_string (label r) of
                Inl e \<Rightarrow> Inl e
              | Inr l \<Rightarrow> Inr [c, a, arkm_url r, l])))"

text \<open>\<^verbatim>\<open>rows.map(r => ...)\<close>: the rows are taken in order, up to the first exception.\<close>

fun rows_fields :: "row list \<Rightarrow> error + string list list" where
  "rows_fields [] = Inr []"
| "rows_fields (r # rs) =
     (case row_fields r of
        Inl e \<Rightarrow> Inl e
      | Inr fs \<Rightarrow> (case rows_fields rs of Inl e \<Rightarrow> Inl e | Inr fss \<Rightarrow> Inr (fs # fss)))"

definition csv_header :: "string list" where
  "csv_header = [''chain'', ''address'', ''arkm_url'', ''label'']"

definition toCSV :: "row list \<Rightarrow> error + string" where
  "toCSV rows =
     (case rows_fields rows of
        Inl e \<Rightarrow> Inl e
      | Inr fss \<Rightarrow>
          Inr (join [newline]
                 ([join [comma] csv_header] @ map (\<lambda>fs. join [comma] (map csv_field fs)) fss)))"

text \<open>
  The reader the export is checked against.  It is not part of the program: it is the
  usual reading of a delimited file, by which a field that opens with a double quote runs
  to the next double quote that is not doubled, any other field runs to the next comma or
  newline, a comma ends a field and a newline ends a record.
\<close>

datatype csv_mode = FieldStart | Plain | Quoted | AfterQuote

fun csv_parse ::
  "csv_mode \<Rightarrow> string \<Rightarrow> string list \<Rightarrow> string list list \<Rightarrow> string \<Rightarrow> string list list" where
  "csv_parse md f r rs [] = rs @ [r @ [f] ]"
| "csv_parse Quoted f r rs (c # cs) =
     (if c = dquote then csv_parse AfterQuote f r rs cs
      else csv_parse Quoted (f @ [c]) r rs cs)"
| "csv_parse md f r rs (c # cs) =
     (if c = comma then csv_parse FieldStart [] (r @ [f]) rs cs
      else if c = newline then csv_parse FieldStart [] [] (rs @ [r @ [f] ]) cs
      else if c = dquote \<and> md \<noteq> Plain then csv_parse Quoted (if md = AfterQuote then f @ [c] else f) r rs cs
      else csv_parse Plain (f @ [c]) r rs cs)"

definition parseCSV :: "string \<Rightarrow> string list list" where
  "parseCSV s = csv_parse FieldStart [] [] [] s"

section \<open>Page size and page count\<close>

text \<open>
  The value of \<^verbatim>\<open>Number(input.value)\<close>: \<^verbatim>\<open>NaN\<close> for a text that is no number, 0 for the
  empty text, an infinity for \<^verbatim>\<open>Infinity\<close> and for a literal beyond the double range.
  Only comparisons are made with it, so a finite double is taken as the real it denotes.
\<close>

datatype number = NaN | Fin real | PosInf | NegInf

text \<open>\<^verbatim>\<open>x || d\<close> on numbers: \<^verbatim>\<open>NaN\<close> and zero are falsy.\<close>

definition or_default :: "number \<Rightarrow> number \<Rightarrow> number" where
  "or_default x d = (if x = NaN \<or> x = Fin 0 then d else x)"

fun number_le :: "number \<Rightarrow> number \<Rightarrow> bool" where
  "number_le NaN y = False"
| "number_le x NaN = False"
| "number_le NegInf y = True"
| "number_le x PosInf = True"
| "number_le (Fin a) (Fin b) = (a \<le> b)"
| "number_le x y = False"

definition Math_min :: "number \<Rightarrow> number \<Rightarrow> number" where
  "Math_min a b = (if a = NaN \<or> b = NaN then NaN else if number_le a b then a else b)"

definition Math_max :: "number \<Rightarrow> number \<Rightarrow> number" where
  "Math_max a b = (if a = NaN \<or> b = NaN then NaN else if number_le a b then b else a)"

definition clamp_limit :: "number \<Rightarrow> number" where
  "clamp_limit v = Math_max (Fin 1) (Math_min (Fin 1000) (or_default v (Fin 500)))"

definition clamp_pages :: "number \<Rightarrow> number" where
  "clamp_pages v = Math_max (Fin 1) (Math_min (Fin 10) (or_default v (Fin 3)))"


section \<open>Transport\<close>

text \<open>
  A parsed \<^verbatim>\<open>URL\<close>: everything before the query, the query as \<^verbatim>\<open>searchParams\<close> lists it,
  and the fragment.  The parser \<^verbatim>\<open>new URL(s)\<close> itself belongs to the platform and is a
  parameter of the model; it answers \<open>None\<close> where the platform throws.  A request
  built from such a URL keeps it in this parsed form instead of its serialisation.
\<close>

record url =
  location :: string
  searchParams :: "(string \<times> string) list"
  fragment :: string

text \<open>
  \<^verbatim>\<open>searchParams.set(name, value)\<close>: the first pair of that name takes the value and the
  other pairs of that name go; without such a pair a new one is appended.
\<close>

fun params_set :: "string \<Rightarrow> string \<Rightarrow> (string \<times> string) list \<Rightarrow> (string \<times> string) list" where
  "params_set k v [] = [(k, v)]"
| "params_set k v ((k', v') # ps) =
     (if k' = k then (k, v) # filter (\<lambda>q. fst q \<noteq> k) ps else (k', v') # params_set k v ps)"

definition buildProxyUrl :: "(string \<Rightarrow> url option) \<Rightarrow> string \<Rightarrow> string \<Rightarrow> url option" where
  "buildProxyUrl parse_url proxyBase target =
     (case parse_url proxyBase of
        None \<Rightarrow> None
      | Some base \<Rightarrow> Some (base\<lparr>searchParams := params_set ''url'' target (searchParams base)\<rparr>))"

text \<open>
  A \<^verbatim>\<open>Headers\<close> object: names are kept in lower case, so \<^verbatim>\<open>get\<close>, \<^verbatim>\<open>set\<close> and
  \<^verbatim>\<open>delete\<close> ignore the case of the name they are given; a second value appended under a
  name is joined to the first with a comma and a space.  Values are taken as already
  trimmed.
\<close>

definition lower_char :: "char \<Rightarrow> char" where
  "lower_char c =
     (case map_of (zip ''ABCDEFGHIJKLMNOPQRSTUVWXYZ'' ''abcdefghijklmnopqrstuvwxyz'') c of
        None \<Rightarrow> c
      | Some d \<Rightarrow> d)"

definition lower :: "string \<Rightarrow> string" where
  "lower s = map lower_char s"

definition headers_append :: "string \<Rightarrow> string \<Rightarrow> (string \<times> string) list \<Rightarrow> (string \<times> string) list" where
  "headers_append name v h =
     (case map_of h (lower name) of
        None \<Rightarrow> h @ [(lower name, v)]
      | Some old \<Rightarrow> obj_set (lower name) (old @ '', '' @ v) h)"

definition headers_new :: "(string \<times> string) list \<Rightarrow> (string \<times> string) list" where
  "headers_new init = fold (\<lambda>kv h. headers_append (fst kv) (snd kv) h) init []"

definition headers_get :: "(string \<times> string) list \<Rightarrow> string \<Rightarrow> string option" where
  "headers_get h name = map_of h (lower name)"

definition headers_delete :: "(string \<times> string) list \<Rightarrow> string \<Rightarrow> (string \<times> string) list" where
  "headers_delete h name = filter (\<lambda>kv. fst kv \<noteq> lower name) h"

definition headers_set :: "(string \<times> string) list \<Rightarrow> string \<Rightarrow> string \<Rightarrow> (string \<times> string) list" where
  "headers_set h name v = obj_set (lower name) v h"

text \<open>
  The second argument of \<^verbatim>\<open>fetch\<close>: its \<^verbatim>\<open>headers\<close> property when it has one, and the
  other properties (\<^verbatim>\<open>cache\<close>, \<^verbatim>\<open>signal\<close>), which the retry copies as they are.
\<close>

record 'o options =
  headers :: "(string \<times> string) list option"
  others :: 'o

datatype target = Literal string | Serialised url

record response =
  status :: nat
  body :: string

text \<open>
  \<^verbatim>\<open>fetch\<close> is the parameter \<open>net\<close>: it rejects (\<open>Inl\<close>) on a network-level failure or an
  abort and resolves (\<open>Inr\<close>) with a response of any status.  The function returns what its
  caller gets together with the requests it has issued, in order.
\<close>

definition fetchWithProxyFirst ::
  "(target \<times> 'o options \<Rightarrow> error + response) \<Rightarrow> (string \<Rightarrow> url option) \<Rightarrow>
     string \<Rightarrow> 'o options \<Rightarrow> string option \<Rightarrow> (error + response) \<times> (target \<times> 'o options) list" where
  "fetchWithProxyFirst net parse_url u opts proxy =
     (let direct = (Literal u, opts) in
      case net direct of
        Inr resp \<Rightarrow> (Inr resp, [direct])
      | Inl err \<Rightarrow>
          (case proxy of
             None \<Rightarrow> (Inl err, [direct])
           | Some p \<Rightarrow>
               if p = [] then (Inl err, [direct])
               else (case buildProxyUrl parse_url p u of
                       None \<Rightarrow> (Inl err, [direct])
                     | Some proxied \<Rightarrow>
                         let h = headers_new (case headers opts of None \<Rightarrow> [] | Some hs \<Rightarrow> hs);
                             h' = (case headers_get h ''API-Key'' of
                                     None \<Rightarrow> h
                                   | Some apiKey \<Rightarrow>
                                       if apiKey = [] then h
                                       else headers_set (headers_delete h ''API-Key'') ''X-API-Key'' apiKey);
                             via = (Serialised proxied, opts\<lparr>headers := Some h'\<rparr>)
                         in (net via, [direct, via]))))"

section \<open>The concurrency limiter\<close>

text \<open>
  JavaScript runs one piece of code at a time, from one \<^verbatim>\<open>await\<close> to the next.  The state
  of a call of \<^verbatim>\<open>mapWithConcurrency\<close> between two such pieces is a \<open>pool\<close>:
  \<^item> \<open>nextIndex\<close> and \<open>results\<close> are the variables of that name;
  \<^item> \<open>running\<close> is the set of that name, each promise \<^verbatim>\<open>p\<close> written as the index
    \<^verbatim>\<open>current\<close> of the item it serves, in insertion order;
  \<^item> \<open>waiting\<close> lists the activations of \<^verbatim>\<open>runOne\<close> suspended in
    \<^verbatim>\<open>await Promise.race(running)\<close>, oldest first, each with the promises that were in
    \<open>running\<close> when it built its race;
  \<^item> \<open>returned\<close> counts the starters whose chain of \<^verbatim>\<open>runOne\<close> calls has returned;
  \<^item> \<open>rejected\<close> holds the error of the first race that rejected, which is what
    \<^verbatim>\<open>Promise.all(starters)\<close> rejects with;
  \<^item> \<open>shared\<close> is whatever state the workers share.
  Calling \<^verbatim>\<open>task(items[current], current)\<close> runs the worker up to its first \<^verbatim>\<open>await\<close>;
  \<open>task current\<close> is the effect of that on the shared state.  A promise never settles
  while code is running, and a worker is taken to wait for something outside the program
  (a request, a timer) before it settles, as \<^verbatim>\<open>crawlOneChain\<close> does; so each settling is an
  event of its own, after the piece of code that called the worker has come to its end.
\<close>

record ('r, 's) pool =
  nextIndex :: nat
  running :: "nat list"
  waiting :: "nat list list"
  returned :: nat
  rejected :: "error option"
  results :: "'r option list"
  shared :: 's

function runOne :: "(nat \<Rightarrow> 's \<Rightarrow> 's) \<Rightarrow> nat \<Rightarrow> nat \<Rightarrow> ('r, 's) pool \<Rightarrow> ('r, 's) pool" where
  "runOne task n limit P =
     (if n \<le> nextIndex P then P\<lparr>returned := Suc (returned P)\<rparr>
      else
        let current = nextIndex P;
            P' = P\<lparr>nextIndex := Suc current,
                   shared := task current (shared P),
                   running := running P @ [current]\<rparr>
        in if limit \<le> length (running P') then P'\<lparr>waiting := waiting P' @ [running P']\<rparr>
           else runOne task n limit P')"
  by pat_completeness auto
termination
  by (relation "measure (\<lambda>(task, n, limit, P). n - nextIndex P)") auto

declare runOne.simps [simp del]

text \<open>
  \<^verbatim>\<open>Array(Math.min(limit, items.length)).fill(0).map(runOne)\<close>: the starters are called
  one after the other, each running until it suspends or returns.
\<close>

definition start :: "(nat \<Rightarrow> 's \<Rightarrow> 's) \<Rightarrow> nat \<Rightarrow> nat \<Rightarrow> 's \<Rightarrow> ('r, 's) pool" where
  "start task n limit s =
     ((runOne task n limit) ^^ (min limit n))
       \<lparr>nextIndex = 0, running = [], waiting = [], returned = 0, rejected = None,
        results = replicate n None, shared = s\<rparr>"

text \<open>
  The worker of item \<open>j\<close> settles.  Fulfilled with \<open>v\<close>, the wrapper stores \<open>v\<close> in
  \<^verbatim>\<open>results[j]\<close>; either way its \<^verbatim>\<open>finally\<close> takes \<^verbatim>\<open>p\<close> out of \<open>running\<close> and \<^verbatim>\<open>p\<close>
  settles every race that was built with it.  After a fulfilment the activations so woken
  go on with \<^verbatim>\<open>return runOne()\<close> in the order in which they had suspended; after a
  rejection their \<^verbatim>\<open>await\<close> throws.
\<close>

definition settle ::
  "(nat \<Rightarrow> 's \<Rightarrow> 's) \<Rightarrow> nat \<Rightarrow> nat \<Rightarrow> nat \<Rightarrow> error + 'r \<Rightarrow> ('r, 's) pool \<Rightarrow> ('r, 's) pool" where
  "settle task n limit j out P =
     (let woken = filter (\<lambda>snap. j \<in> set snap) (waiting P);
          P' = P\<lparr>running := removeAll j (running P),
                 waiting := filter (\<lambda>snap. j \<notin> set snap) (waiting P)\<rparr>
      in case out of
           Inr v \<Rightarrow> ((runOne task n limit) ^^ (length woken)) (P'\<lparr>results := (results P')[j := Some v]\<rparr>)
         | Inl e \<Rightarrow> if woken \<noteq> [] \<and> rejected P' = None then P'\<lparr>rejected := Some e\<rparr> else P')"

datatype 'r outcome = Unsettled | Resolved "'r option list" | Rejected error

text \<open>
  \<^verbatim>\<open>await Promise.all(starters); return results\<close>: what the caller of
  \<^verbatim>\<open>mapWithConcurrency\<close> has got in pool \<open>P\<close>.
\<close>

definition promise_all :: "nat \<Rightarrow> nat \<Rightarrow> ('r, 's) pool \<Rightarrow> 'r outcome" where
  "promise_all n limit P =
     (case rejected P of
        Some e \<Rightarrow> Rejected e
      | None \<Rightarrow> if returned P = min limit n then Resolved (results P) else Unsettled)"

text \<open>Events are handled one by one until \<^verbatim>\<open>Promise.all(starters)\<close> has settled.\<close>

fun until_settled ::
  "(('r, 's) pool \<Rightarrow> bool) \<Rightarrow> (nat \<Rightarrow> ('r, 's) pool \<Rightarrow> ('r, 's) pool) \<Rightarrow> nat list \<Rightarrow>
     ('r, 's) pool \<Rightarrow> ('r, 's) pool" where
  "until_settled settled ev [] P = P"
| "until_settled settled ev (j # js) P =
     (if settled P then P else until_settled settled ev js (ev j P))"

text \<open>
  \<^verbatim>\<open>mapWithConcurrency(items, limit, task)\<close> for workers that touch no shared state.  What
  a worker settles with is \<open>task (items ! j) j\<close>; when it does is the environment's
  choice, given as the list \<open>sched\<close> of the items whose workers settle, in that order (an
  entry naming a worker that is not running is skipped).  The answer is what the caller
  has got once these events have happened, \<open>Unsettled\<close> if it is still waiting.
\<close>

definition mapWithConcurrency ::
  "'a list \<Rightarrow> nat \<Rightarrow> ('a \<Rightarrow> nat \<Rightarrow> error + 'r) \<Rightarrow> nat list \<Rightarrow> 'r outcome" where
  "mapWithConcurrency items limit task sched =
     (let n = length items;
          ev = (\<lambda>j P. if j \<in> set (running P)
                       then settle (\<lambda>c s. s) n limit j (task (items ! j) j) P else P)
      in promise_all n limit
           (until_settled (\<lambda>P. promise_all n limit P \<noteq> Unsettled) ev sched
              (start (\<lambda>c s. s) n limit ())))"


section \<open>The chain crawler and the orchestrator\<close>

text \<open>
  What \<^verbatim>\<open>await api.fetchTransfers(...)\<close> followed by \<^verbatim>\<open>data.transfers || []\<close> gives the
  loop: the array of the page's records, empty when the answer has no \<^verbatim>\<open>transfers\<close>, or an
  exception: a rejected or aborted request, a status that is not ok, a body that is no
  JSON or is \<^verbatim>\<open>null\<close>, and also a \<^verbatim>\<open>transfers\<close> that is truthy and no array, on which
  \<^verbatim>\<open>forEach\<close> throws before anything has been written.
\<close>

datatype page = Failed error | Transfers "jsval list"

text \<open>
  The arguments of \<^verbatim>\<open>runCrawler\<close>: \<open>entityName\<close> is \<^verbatim>\<open>entity.name\<close>, \<open>pages\<close> the page
  count, \<open>chains\<close> the chain list, and \<open>fetchTransfers j i\<close> what the API layer answers for
  page \<open>i\<close> of the chain at position \<open>j\<close> (the request for offset \<^verbatim>\<open>i * limit\<close>).  The
  page count is a number like any other: \<^verbatim>\<open>init\<close> cuts it to the range from 1 to 10 and
  does not round it, so it is finite and need not be whole.  A finite double is taken as
  the real it denotes, as are the counter \<^verbatim>\<open>completedPages\<close> and \<^verbatim>\<open>totalPages\<close>, which
  are computed from it.  For a whole page count all of these are whole numbers far below
  \<^verbatim>\<open>2 ** 53\<close>, on which the sums and differences of doubles are exact.  For any other
  page count the sums of the model are exact where those of the program may be rounded;
  the one such count looked at below is two and a half, with which every sum is a
  multiple of one half and exact in doubles as well.
\<close>

record job =
  entityName :: jsval
  pages :: real
  chains :: "string list"
  fetchTransfers :: "nat \<Rightarrow> nat \<Rightarrow> page"

text \<open>The text of a chain's status line, by its kind and the numbers it shows.\<close>

datatype chain_status =
    NotBegun
  | InProgress nat real nat
  | Completed nat
  | FailedWith error

text \<open>
  Where the call of \<^verbatim>\<open>crawlOneChain\<close> for a chain stands: not called yet, suspended in the
  request for page \<open>i\<close> with \<open>merged\<close> as it is then (the wait before a later page
  included), returned with its promise not yet settled, or settled.
\<close>

datatype task = NotStarted | Fetching nat merged | Settling | Finished

text \<open>
  The variables of \<^verbatim>\<open>runCrawler\<close> that its workers share, the status lines, the row lists
  passed to \<^verbatim>\<open>appendResults\<close> so far, the values of \<^verbatim>\<open>completedPages\<close> from which the
  progress bar has been set so far, and the state of each worker.  \<^verbatim>\<open>appendResults\<close>
  writes rows into the page and converts their values to text for that; the rows it
  touches are rows that \<^verbatim>\<open>extractHotWallet\<close> has stored, whose values that function has
  converted before, so the conversion does not throw again and the call is kept as the
  list of rows it was given.
\<close>

record crawl =
  allResults :: "row list"
  completedChains :: nat
  completedPages :: real
  chainStatus :: "chain_status list"
  appended :: "row list list"
  progress :: "real list"
  tasks :: "task list"

text \<open>\<^verbatim>\<open>xs.slice(-d)\<close> for \<open>d > 0\<close>: the last \<open>d\<close> elements, all of them if there are fewer.\<close>

definition slice_last :: "nat \<Rightarrow> 'a list \<Rightarrow> 'a list" where
  "slice_last d xs = drop (length xs - d) xs"

datatype loop = Continue nat merged | Break merged

text \<open>
  One round of the \<^verbatim>\<open>for\<close> loop from the answer for page \<open>i\<close> on: \<open>Inl\<close> for an exception,
  else the shared state and whether the loop goes on.
\<close>

definition page_body :: "job \<Rightarrow> nat \<Rightarrow> nat \<Rightarrow> merged \<Rightarrow> page \<Rightarrow> crawl \<Rightarrow> error + crawl \<times> loop" where
  "page_body job j i merged answer C =
     (case answer of
        Failed e \<Rightarrow> Inl e
      | Transfers transfers \<Rightarrow>
          if length transfers = 0
          then Inr (C\<lparr>completedPages := completedPages C + (pages job - real i),
                      progress := progress C @ [completedPages C + (pages job - real i)]\<rparr>,
                    Break merged)
          else
            let keys_before = length merged in
            (case forEach_tx transfers merged (entityName job) of
               Inl e \<Rightarrow> Inl e
             | Inr merged' \<Rightarrow>
                 let found = length merged';
                     deltaNew = found - keys_before;
                     C1 = (if 0 < deltaNew
                           then C\<lparr>appended := appended C @ [slice_last deltaNew (map snd merged')]\<rparr>
                           else C);
                     C2 = C1\<lparr>chainStatus := (chainStatus C1)[j := InProgress (Suc i) (pages job) found],
                             completedPages := completedPages C1 + 1,
                             progress := progress C1 @ [completedPages C1 + 1]\<rparr>
                 in Inr (C2, if real (Suc i) < pages job then Continue (Suc i) merged'
                             else Break merged')))"

text \<open>The \<^verbatim>\<open>finally\<close> of \<^verbatim>\<open>crawlOneChain\<close>, after which the call has returned.\<close>

definition chain_finally :: "nat \<Rightarrow> crawl \<Rightarrow> crawl" where
  "chain_finally j C =
     C\<lparr>completedChains := completedChains C + 1, tasks := (tasks C)[j := Settling]\<rparr>"

text \<open>The statements after the loop.\<close>

definition chain_done :: "nat \<Rightarrow> merged \<Rightarrow> crawl \<Rightarrow> crawl" where
  "chain_done j merged C =
     (let list = map snd merged
      in chain_finally j
           (C\<lparr>allResults := allResults C @ list,
              chainStatus := (chainStatus C)[j := Completed (length list)]\<rparr>))"

text \<open>The \<^verbatim>\<open>catch\<close>.\<close>

definition chain_failed :: "nat \<Rightarrow> error \<Rightarrow> crawl \<Rightarrow> crawl" where
  "chain_failed j e C = chain_finally j (C\<lparr>chainStatus := (chainStatus C)[j := FailedWith e]\<rparr>)"

text \<open>
  \<^verbatim>\<open>crawlOneChain\<close> from the answer for page \<open>i\<close> to its next suspension or its return.
\<close>

definition crawl_step :: "job \<Rightarrow> nat \<Rightarrow> nat \<Rightarrow> merged \<Rightarrow> crawl \<Rightarrow> crawl" where
  "crawl_step job j i merged C =
     (case page_body job j i merged (fetchTransfers job j i) C of
        Inl e \<Rightarrow> chain_failed j e C
      | Inr (C', Continue i' merged') \<Rightarrow> C'\<lparr>tasks := (tasks C')[j := Fetching i' merged']\<rparr>
      | Inr (C', Break merged') \<Rightarrow> chain_done j merged' C')"

text \<open>\<^verbatim>\<open>crawlOneChain\<close> from its call to its first suspension.\<close>

definition crawl_launch :: "job \<Rightarrow> nat \<Rightarrow> crawl \<Rightarrow> crawl" where
  "crawl_launch job j C =
     (let C' = C\<lparr>chainStatus := (chainStatus C)[j := InProgress 0 (pages job) 0]\<rparr>
      in if 0 < pages job then C'\<lparr>tasks := (tasks C')[j := Fetching 0 [] ]\<rparr>
         else chain_done j [] C')"

text \<open>
  The loop of one chain with nothing else running in between: every request is answered
  before anything else happens.
\<close>

function crawl_loop :: "job \<Rightarrow> nat \<Rightarrow> nat \<Rightarrow> merged \<Rightarrow> crawl \<Rightarrow> crawl" where
  "crawl_loop job j i merged C =
     (case page_body job j i merged (fetchTransfers job j i) C of
        Inl e \<Rightarrow> chain_failed j e C
      | Inr (C', Continue i' merged') \<Rightarrow> crawl_loop job j i' merged' C'
      | Inr (C', Break merged') \<Rightarrow> chain_done j merged' C')"
  by pat_completeness auto
termination
  by (relation "measure (\<lambda>(job, j, i, merged, C). nat \<lceil>pages job\<rceil> - i)")
     (auto simp: page_body_def Let_def split: page.splits if_splits sum.splits, linarith+)

declare crawl_loop.simps [simp del]

definition crawlOneChain :: "job \<Rightarrow> nat \<Rightarrow> crawl \<Rightarrow> crawl" where
  "crawlOneChain job j C =
     (let C' = C\<lparr>chainStatus := (chainStatus C)[j := InProgress 0 (pages job) 0]\<rparr>
      in if 0 < pages job then crawl_loop job j 0 [] C' else chain_done j [] C')"

text \<open>
  The orchestrator.  \<open>deliver job j\<close> is the event that the worker of chain \<open>j\<close> gets what
  it is waiting for: the answer for its page, or, once it has returned, the settling of
  its promise, which follows a return in the same turn except when the page count is 0
  and the worker returns from within the call that started it.
\<close>

definition totalChains :: "job \<Rightarrow> nat" where
  "totalChains job = length (chains job)"

definition totalPages :: "job \<Rightarrow> real" where
  "totalPages job = real (totalChains job) * pages job"

definition settle_chain :: "job \<Rightarrow> nat \<Rightarrow> (unit, crawl) pool \<Rightarrow> (unit, crawl) pool" where
  "settle_chain job j P =
     settle (crawl_launch job) (totalChains job) 3 j (Inr ())
       (P\<lparr>shared := (shared P)\<lparr>tasks := (tasks (shared P))[j := Finished]\<rparr>\<rparr>)"

definition deliver :: "job \<Rightarrow> nat \<Rightarrow> (unit, crawl) pool \<Rightarrow> (unit, crawl) pool" where
  "deliver job j P =
     (if j < length (tasks (shared P)) then
        (case tasks (shared P) ! j of
           Fetching i merged \<Rightarrow>
             (let C = crawl_step job j i merged (shared P)
              in if tasks C ! j = Settling then settle_chain job j (P\<lparr>shared := C\<rparr>)
                 else P\<lparr>shared := C\<rparr>)
         | Settling \<Rightarrow> settle_chain job j P
         | _ \<Rightarrow> P)
      else P)"

definition run_start :: "job \<Rightarrow> (unit, crawl) pool" where
  "run_start job =
     start (crawl_launch job) (totalChains job) 3
       \<lparr>allResults = [], completedChains = 0, completedPages = 0,
        chainStatus = replicate (totalChains job) NotBegun, appended = [], progress = [],
        tasks = replicate (totalChains job) NotStarted\<rparr>"

text \<open>The state of a run after the events \<open>sched\<close>.\<close>

definition run_events :: "job \<Rightarrow> nat list \<Rightarrow> (unit, crawl) pool" where
  "run_events job sched = fold (deliver job) sched (run_start job)"

text \<open>
  \<^verbatim>\<open>await mapWithConcurrency(chains, 3, crawlOneChain); return allResults\<close>: the state in
  which the limiter's promise has settled, if it has within the events \<open>sched\<close>, and what
  the caller of \<^verbatim>\<open>runCrawler\<close> gets then: the rows in \<^verbatim>\<open>allResults\<close>, or the exception.
\<close>

definition run_settled :: "job \<Rightarrow> nat list \<Rightarrow> (unit, crawl) pool" where
  "run_settled job sched =
     until_settled (\<lambda>P. promise_all (totalChains job) 3 P \<noteq> Unsettled) (deliver job) sched
       (run_start job)"

definition runCrawler :: "job \<Rightarrow> nat list \<Rightarrow> (error + row list) option" where
  "runCrawler job sched =
     (let P = run_settled job sched
      in case promise_all (totalChains job) 3 P of
           Unsettled \<Rightarrow> None
         | Rejected e \<Rightarrow> Some (Inl e)
         | Resolved rs \<Rightarrow> Some (Inr (allResults (shared P))))"


section \<open>Notions used in the statements\<close>

text \<open>
  What \<^verbatim>\<open>extractHotWallet\<close> reads from a record: the name of the owning entity, the name of
  the label, and under a match the key and the row it stores, if they can be built.  A
  value is printable when \<^verbatim>\<open>String(v)\<close> gives a text for it and does not throw.
\<close>

definition entity_of :: "jsval \<Rightarrow> jsval" where
  "entity_of r = opt_prop (opt_prop r ''arkhamEntity'') ''name''"

definition label_of :: "jsval \<Rightarrow> jsval" where
  "label_of r = opt_prop (opt_prop r ''arkhamLabel'') ''name''"

definition qualifies :: "jsval \<Rightarrow> jsval \<Rightarrow> bool" where
  "qualifies r n = (strict_eq (entity_of r) n \<and> label_of r = JStr ''Hot Wallet'')"

definition row_of :: "jsval \<Rightarrow> error + row" where
  "row_of r = make_row (opt_prop r ''chain'') (opt_prop r ''address'') (JStr ''Hot Wallet'')"

definition key_of :: "jsval \<Rightarrow> error + string" where
  "key_of r = dedup_key (opt_prop r ''address'') (opt_prop r ''chain'')"

definition printable :: "jsval \<Rightarrow> bool" where
  "printable v = (case to_string v of Inl e \<Rightarrow> False | Inr s \<Rightarrow> True)"

definition printable_row :: "row \<Rightarrow> bool" where
  "printable_row w = (printable (chain w) \<and> printable (address w) \<and> printable (label w))"

text \<open>
  The accumulation object a round of the loop leaves behind.
\<close>

definition merged_of :: "loop \<Rightarrow> merged" where
  "merged_of nxt = (case nxt of Continue i m \<Rightarrow> m | Break m \<Rightarrow> m)"

text \<open>
  A page that a round of the loop processes without an exception: the request is answered
  with an array of records that is not empty, and \<^verbatim>\<open>forEach\<close> gets through it.  Whether
  a record makes \<^verbatim>\<open>extractHotWallet\<close> throw does not depend on the map it is given, so
  the empty map stands for any.
\<close>

definition processed :: "job \<Rightarrow> page \<Rightarrow> bool" where
  "processed job a =
     (case a of
        Failed e \<Rightarrow> False
      | Transfers ts \<Rightarrow>
          ts \<noteq> [] \<and> (case forEach_tx ts [] (entityName job) of Inl e \<Rightarrow> False | Inr m \<Rightarrow> True))"

text \<open>
  One record of the export, and the places where the reader may stand when a field ends.
\<close>

definition csv_line :: "string list \<Rightarrow> string" where
  "csv_line fs = join [comma] (map csv_field fs)"

definition at_delim :: "string \<Rightarrow> bool" where
  "at_delim rest = (case rest of [] \<Rightarrow> True | c # cs \<Rightarrow> c = comma \<or> c = newline)"

text \<open>
  The invariants of a run.  A worker is in flight from its call to the settling of its
  promise; \<open>has_returned\<close> is what it has added to \<^verbatim>\<open>completedChains\<close>, \<open>page_bound\<close> a bound on
  what it has added to \<^verbatim>\<open>completedPages\<close>, and \<open>remaining\<close> a bound on the events it still
  takes part in.  The loop of a chain makes as many rounds as there are whole numbers
  from 0 on below the page count, at most: the page count rounded up.
\<close>

definition in_flight :: "task \<Rightarrow> bool" where
  "in_flight t = (case t of Fetching i m \<Rightarrow> True | Settling \<Rightarrow> True | _ \<Rightarrow> False)"

definition has_returned :: "task \<Rightarrow> nat" where
  "has_returned t = (case t of Settling \<Rightarrow> 1 | Finished \<Rightarrow> 1 | _ \<Rightarrow> 0)"

definition rounds :: "real \<Rightarrow> nat" where
  "rounds p = nat \<lceil>p\<rceil>"

definition page_bound :: "real \<Rightarrow> task \<Rightarrow> real" where
  "page_bound p t =
     (case t of NotStarted \<Rightarrow> 0 | Fetching i m \<Rightarrow> real i | _ \<Rightarrow> real (rounds p))"

definition task_ok :: "real \<Rightarrow> task \<Rightarrow> bool" where
  "task_ok p t = (case t of Fetching i m \<Rightarrow> real i < p | _ \<Rightarrow> True)"


definition launch_task :: "real \<Rightarrow> task" where
  "launch_task p = (if 0 < p then Fetching 0 [] else Settling)"

definition inv_tasks :: "job \<Rightarrow> (unit, crawl) pool \<Rightarrow> bool" where
  "inv_tasks job P =
     (length (tasks (shared P)) = totalChains job \<and>
      length (chainStatus (shared P)) = totalChains job \<and>
      nextIndex P \<le> totalChains job \<and>
      (\<forall>k<totalChains job. (tasks (shared P) ! k = NotStarted) = (nextIndex P \<le> k)) \<and>
      (\<forall>k<totalChains job. task_ok (pages job) (tasks (shared P) ! k)))"

definition inv_counts :: "job \<Rightarrow> (unit, crawl) pool \<Rightarrow> bool" where
  "inv_counts job P =
     (completedPages (shared P) \<le> sum_list (map (page_bound (pages job)) (tasks (shared P))) \<and>
      completedChains (shared P) = sum_list (map has_returned (tasks (shared P))))"

definition inv_pool :: "job \<Rightarrow> (unit, crawl) pool \<Rightarrow> bool" where
  "inv_pool job P =
     (rejected P = None \<and>
      (\<forall>k. (k \<in> set (running P)) = (k < totalChains job \<and> in_flight (tasks (shared P) ! k))) \<and>
      (\<forall>snap \<in> set (waiting P). snap \<noteq> [] \<and> set snap \<subseteq> set (running P)) \<and>
      (0 < returned P \<longrightarrow> totalChains job \<le> nextIndex P))"

definition crawl_inv :: "job \<Rightarrow> (unit, crawl) pool \<Rightarrow> bool" where
  "crawl_inv job P = (inv_tasks job P \<and> inv_counts job P \<and> inv_pool job P)"

definition run_inv :: "job \<Rightarrow> (unit, crawl) pool \<Rightarrow> bool" where
  "run_inv job P =
     (crawl_inv job P \<and> returned P + length (waiting P) = min 3 (totalChains job))"


text \<open>
  Every row a run holds, in the result list or in the map of a chain that is under way, has
  values that can be converted to text.
\<close>

definition printable_map :: "merged \<Rightarrow> bool" where
  "printable_map m = (\<forall>kv \<in> set m. printable_row (snd kv))"

definition printable_task :: "task \<Rightarrow> bool" where
  "printable_task t = (case t of Fetching i m \<Rightarrow> printable_map m | _ \<Rightarrow> True)"

definition printable_rows :: "crawl \<Rightarrow> bool" where
  "printable_rows C =
     ((\<forall>w \<in> set (allResults C). printable_row w) \<and> (\<forall>t \<in> set (tasks C). printable_task t))"

text \<open>
  The pool after the single steps a run is made of: a worker has been called, a worker has
  handled the answer for a page, the promise of a worker has settled.
\<close>

definition launched :: "job \<Rightarrow> (unit, crawl) pool \<Rightarrow> (unit, crawl) pool" where
  "launched job P =
     P\<lparr>nextIndex := Suc (nextIndex P),
       shared := crawl_launch job (nextIndex P) (shared P),
       running := running P @ [nextIndex P]\<rparr>"

definition stepped :: "job \<Rightarrow> nat \<Rightarrow> nat \<Rightarrow> merged \<Rightarrow> (unit, crawl) pool \<Rightarrow> (unit, crawl) pool" where
  "stepped job j i m P = P\<lparr>shared := crawl_step job j i m (shared P)\<rparr>"

definition finished_book :: "nat \<Rightarrow> (unit, crawl) pool \<Rightarrow> (unit, crawl) pool" where
  "finished_book j P =
     P\<lparr>shared := (shared P)\<lparr>tasks := (tasks (shared P))[j := Finished]\<rparr>,
       running := removeAll j (running P),
       waiting := filter (\<lambda>snap. j \<notin> set snap) (waiting P),
       results := (results P)[j := Some ()]\<rparr>"

text \<open>
  An array of results in which every slot is empty or holds what the worker of its own item
  has settled with.
\<close>

definition own_results :: "'a list \<Rightarrow> ('a \<Rightarrow> nat \<Rightarrow> error + 'r) \<Rightarrow> 'r option list \<Rightarrow> bool" where
  "own_results items task rs =
     (length rs = length items \<and>
      (\<forall>j<length items. rs ! j = None \<or> (\<exists>v. rs ! j = Some v \<and> task (items ! j) j = Inr v)))"

section \<open>Example inputs\<close>

text \<open>
  A counterparty record of the entity Acme labelled as a hot wallet, the row it yields, the
  same with a number for an address, the same with an address that cannot be printed (the
  JSON object \<^verbatim>\<open>{"toString":1}\<close>), and a transfer sent by a given owner.
\<close>

definition acme_wallet :: "string \<Rightarrow> jsval" where
  "acme_wallet a =
     JObj [(''address'', JStr a), (''chain'', JStr ''bitcoin''),
           (''arkhamEntity'', JObj [(''name'', JStr ''Acme'')]),
           (''arkhamLabel'', JObj [(''name'', JStr ''Hot Wallet'')])]"

definition acme_row :: "string \<Rightarrow> row" where
  "acme_row a =
     \<lparr>chain = JStr ''bitcoin'', address = JStr a,
      arkm_url = ''https://intel.arkm.com/explorer/address/'' @ a, label = JStr ''Hot Wallet''\<rparr>"

definition numeric_wallet :: jsval where
  "numeric_wallet =
     JObj [(''address'', JNum ''7''), (''chain'', JStr ''bitcoin''),
           (''arkhamEntity'', JObj [(''name'', JStr ''Acme'')]),
           (''arkhamLabel'', JObj [(''name'', JStr ''Hot Wallet'')])]"

definition unprintable_wallet :: jsval where
  "unprintable_wallet =
     JObj [(''address'', JObj [(''toString'', JNum ''1'')]), (''chain'', JStr ''bitcoin''),
           (''arkhamEntity'', JObj [(''name'', JStr ''Acme'')]),
           (''arkhamLabel'', JObj [(''name'', JStr ''Hot Wallet'')])]"

definition sent_by :: "jsval \<Rightarrow> jsval" where
  "sent_by owner = JObj [(''fromAddressOwner'', owner)]"

definition acme_transfer :: jsval where
  "acme_transfer = sent_by (acme_wallet ''bc1xyz'')"

text \<open>
  One chain of two pages: the first page has one qualifying transfer, the request for the
  second times out.
\<close>

fun timeout_pages :: "nat \<Rightarrow> nat \<Rightarrow> page" where
  "timeout_pages j 0 = Transfers [acme_transfer]"
| "timeout_pages j (Suc i) = Failed (RequestError ''timeout'')"

definition timeout_job :: job where
  "timeout_job =
     \<lparr>entityName = JStr ''Acme'', pages = 2, chains = [''bitcoin''],
      fetchTransfers = timeout_pages\<rparr>"

text \<open>
  Two chains of three pages: the first page has one qualifying transfer, every later page is
  empty.
\<close>

fun exhausted_pages :: "nat \<Rightarrow> nat \<Rightarrow> page" where
  "exhausted_pages j 0 = Transfers [acme_transfer]"
| "exhausted_pages j (Suc i) = Transfers []"

definition exhausted_job :: job where
  "exhausted_job =
     \<lparr>entityName = JStr ''Acme'', pages = 3, chains = [''bitcoin'', ''ethereum''],
      fetchTransfers = exhausted_pages\<rparr>"

text \<open>
  One chain with a page count of two and a half, every page of which has one qualifying
  transfer; and one chain of three pages whose first page holds a \<^verbatim>\<open>null\<close> where a
  record should be and whose later pages are empty.
\<close>

definition fractional_job :: job where
  "fractional_job =
     \<lparr>entityName = JStr ''Acme'', pages = 5 / 2, chains = [''bitcoin''],
      fetchTransfers = (\<lambda>j i. Transfers [acme_transfer])\<rparr>"

fun null_record_pages :: "nat \<Rightarrow> nat \<Rightarrow> page" where
  "null_record_pages j 0 = Transfers [JNull]"
| "null_record_pages j (Suc i) = Transfers []"

definition null_record_job :: job where
  "null_record_job =
     \<lparr>entityName = JStr ''Acme'', pages = 3, chains = [''bitcoin''],
      fetchTransfers = null_record_pages\<rparr>"

text \<open>
  A network on which every direct request fails and every request through a relay is
  answered, a URL parser that accepts one relay address, and options that carry an API key.
\<close>

fun offline_net :: "target \<times> unit options \<Rightarrow> error + response" where
  "offline_net (Literal u, opts) = Inl (RequestError ''Failed to fetch'')"
| "offline_net (Serialised v, opts) = Inr \<lparr>status = 200, body = ''ok''\<rparr>"

definition relay_only :: "string \<Rightarrow> url option" where
  "relay_only s =
     (if s = ''https://relay.example/'' then Some \<lparr>location = s, searchParams = [], fragment = []\<rparr>
      else None)"

definition keyed_options :: "unit options" where
  "keyed_options = \<lparr>headers = Some [(''API-Key'', ''k1'')], others = ()\<rparr>"

section \<open>The extractor\<close>

lemma strict_eq_Str: "strict_eq v (JStr s) = (v = JStr s)"
  by (cases v) auto

lemma hot_not_nullish:
  "opt_prop (opt_prop r ''arkhamLabel'') ''name'' = JStr s \<Longrightarrow> \<exists>kvs. r = JObj kvs"
  by (cases r) auto

lemma to_string_error:
  "to_string v = Inl e \<Longrightarrow> e = TypeError"
  "join_elems vs = Inl e \<Longrightarrow> e = TypeError"
  by (induction v and vs arbitrary: e and e rule: to_string_join_elems.induct)
     (auto split: sum.splits if_splits)

lemma printable_iff:
  "printable v = (\<exists>s. to_string v = Inr s)"
  "(\<not> printable v) = (to_string v = Inl TypeError)"
proof -
  show "printable v = (\<exists>s. to_string v = Inr s)"
    by (cases "to_string v") (simp_all add: printable_def)
  show "(\<not> printable v) = (to_string v = Inl TypeError)"
    using to_string_error(1)[of v] by (cases "to_string v") (auto simp: printable_def)
qed

lemma extractHotWallet_eq:
  "extractHotWallet r m n =
     (if qualifies r n
      then (case key_of r of
              Inl e \<Rightarrow> Inl e
            | Inr k \<Rightarrow> (case row_of r of Inl e \<Rightarrow> Inl e | Inr w \<Rightarrow> Inr (obj_set k w m)))
      else Inr m)"
proof (cases "qualifies r n")
  case True
  then obtain kvs where r: "r = JObj kvs"
    using hot_not_nullish by (auto simp: qualifies_def label_of_def)
  have g: "\<And>p. get_prop (JObj kvs) p = Inr (opt_prop (JObj kvs) p)"
    by (simp split: option.splits)
  from True show ?thesis
    unfolding extractHotWallet_def qualifies_def entity_of_def label_of_def row_of_def key_of_def
      r g Let_def
    by (simp add: strict_eq_Str del: opt_prop.simps cong: sum.case_cong)
next
  case False
  then show ?thesis
    unfolding extractHotWallet_def qualifies_def entity_of_def label_of_def
    by (auto simp: strict_eq_Str Let_def)
qed

lemma key_row_of:
  "key_of r = Inr k \<Longrightarrow> \<exists>w. row_of r = Inr w"
  by (auto simp: key_of_def row_of_def dedup_key_def make_row_def split: sum.splits)

lemma extractHotWallet_cases:
  "extractHotWallet r m n = Inr m' \<Longrightarrow> m' = m \<or> (\<exists>k w. m' = obj_set k w m)"
  by (auto simp: extractHotWallet_eq split: if_splits sum.splits)

lemma extractHotWallet_any_map:
  "isl (extractHotWallet r m n) = isl (extractHotWallet r m0 n)"
  by (simp add: extractHotWallet_eq split: sum.splits)

lemma map_fst_obj_set:
  "map fst (obj_set k v m) = (if k \<in> fst ` set m then map fst m else map fst m @ [k])"
  by (induction m) force+

lemma distinct_obj_set: "distinct (map fst m) \<Longrightarrow> distinct (map fst (obj_set k v m))"
  by (simp add: map_fst_obj_set)

lemma map_of_obj_set: "map_of (obj_set k v m) = (map_of m)(k \<mapsto> v)"
  by (induction m) auto

lemma extract_all_distinct:
  "distinct (map fst m) \<Longrightarrow> extract_all rs m n = Inr m' \<Longrightarrow> distinct (map fst m')"
proof (induction rs arbitrary: m)
  case Nil
  then show ?case by simp
next
  case (Cons r rs)
  from Cons.prems(2) obtain m1 where m1: "extractHotWallet r m n = Inr m1"
    and rest: "extract_all rs m1 n = Inr m'"
    by (cases "extractHotWallet r m n") simp_all
  from extractHotWallet_cases[OF m1] have "distinct (map fst m1)"
    using Cons.prems(1) distinct_obj_set[OF Cons.prems(1)] by auto
  then show ?case using rest by (rule Cons.IH)
qed

lemmas ex_defs = acme_wallet_def acme_row_def sent_by_def
  entity_of_def label_of_def key_of_def row_of_def qualifies_def dedup_key_def make_row_def
  printable_def

text \<open>
  Claim C3, as stated, fails.  The record below is owned by the entity asked for and is
  labelled \<^verbatim>\<open>Hot Wallet\<close>, and its address is the JSON object \<^verbatim>\<open>{"toString":1}\<close>.  The
  claim has a row inserted for it; the template literal that builds the key throws a
  TypeError instead, and nothing is inserted.
\<close>

theorem extractHotWallet_throws_on_unprintable_address:
  "strict_eq (entity_of unprintable_wallet) (JStr ''Acme'') \<and>
   label_of unprintable_wallet = JStr ''Hot Wallet'' \<and>
   opt_prop unprintable_wallet ''address'' = JObj [(''toString'', JNum ''1'')] \<and>
   to_string (JObj [(''toString'', JNum ''1'')]) = Inl TypeError \<and>
   extractHotWallet unprintable_wallet [] (JStr ''Acme'') = Inl TypeError"
  by (simp add: unprintable_wallet_def extractHotWallet_def entity_of_def label_of_def
      dedup_key_def)

text \<open>
  Claim C3, amended.  For every address-info record and every target entity name: when
  the owning entity name of the record does not equal the target name, or its label name is
  not exactly the string \<^verbatim>\<open>Hot Wallet\<close>, absent or malformed fields included,
  \<^verbatim>\<open>extractHotWallet\<close> raises no error and leaves the map as it was.  When both names
  match and the address and the chain of the record can be converted to text, it raises no
  error and stores the row of the record under the key made of these two texts, which is
  what the map holds under that key afterwards.  When both names match and the address or
  the chain cannot be converted to text, it throws a TypeError, and nothing is stored.
\<close>

theorem extractHotWallet_inserts_iff_printable_hot_wallet:
  "if strict_eq (entity_of r) n \<and> label_of r = JStr ''Hot Wallet''
   then if printable (opt_prop r ''address'') \<and> printable (opt_prop r ''chain'')
        then \<exists>a c w. to_string (opt_prop r ''address'') = Inr a \<and>
                to_string (opt_prop r ''chain'') = Inr c \<and>
                w = \<lparr>chain = opt_prop r ''chain'', address = opt_prop r ''address'',
                     arkm_url = ''https://intel.arkm.com/explorer/address/'' @ a,
                     label = JStr ''Hot Wallet''\<rparr> \<and>
                extractHotWallet r m n = Inr (obj_set (a @ ''@'' @ c) w m) \<and>
                map_of (obj_set (a @ ''@'' @ c) w m) (a @ ''@'' @ c) = Some w
        else extractHotWallet r m n = Inl TypeError
   else extractHotWallet r m n = Inr m"
proof (cases "strict_eq (entity_of r) n \<and> label_of r = JStr ''Hot Wallet''")
  case False
  then have "\<not> qualifies r n" by (simp add: qualifies_def)
  then have "extractHotWallet r m n = Inr m" by (simp add: extractHotWallet_eq)
  then show ?thesis by (subst if_not_P[OF False])
next
  case q: True
  then have qq: "qualifies r n" by (simp add: qualifies_def)
  show ?thesis
  proof (cases "printable (opt_prop r ''address'') \<and> printable (opt_prop r ''chain'')")
    case True
    then obtain a c where a: "to_string (opt_prop r ''address'') = Inr a"
      and c: "to_string (opt_prop r ''chain'') = Inr c"
      by (auto simp: printable_iff)
    let ?w = "\<lparr>chain = opt_prop r ''chain'', address = opt_prop r ''address'',
               arkm_url = ''https://intel.arkm.com/explorer/address/'' @ a,
               label = JStr ''Hot Wallet''\<rparr>"
    have e: "extractHotWallet r m n = Inr (obj_set (a @ ''@'' @ c) ?w m)"
      using qq by (simp add: extractHotWallet_eq key_of_def row_of_def dedup_key_def make_row_def a c)
    have l: "map_of (obj_set (a @ ''@'' @ c) ?w m) (a @ ''@'' @ c) = Some ?w"
      by (simp add: map_of_obj_set)
    have "\<exists>a c w. to_string (opt_prop r ''address'') = Inr a \<and>
                to_string (opt_prop r ''chain'') = Inr c \<and>
                w = \<lparr>chain = opt_prop r ''chain'', address = opt_prop r ''address'',
                     arkm_url = ''https://intel.arkm.com/explorer/address/'' @ a,
                     label = JStr ''Hot Wallet''\<rparr> \<and>
                extractHotWallet r m n = Inr (obj_set (a @ ''@'' @ c) w m) \<and>
                map_of (obj_set (a @ ''@'' @ c) w m) (a @ ''@'' @ c) = Some w"
      using a c e l by blast
    then show ?thesis by (subst if_P[OF q], subst if_P[OF True])
  next
    case False
    then have "\<not> printable (opt_prop r ''address'') \<or> \<not> printable (opt_prop r ''chain'')"
      by simp
    then have "to_string (opt_prop r ''address'') = Inl TypeError \<or>
        to_string (opt_prop r ''chain'') = Inl TypeError"
      by (simp only: printable_iff(2))
    then have "extractHotWallet r m n = Inl TypeError"
      using qq to_string_error(1)[of "opt_prop r ''address''"]
      by (cases "to_string (opt_prop r ''address'')")
         (auto simp: extractHotWallet_eq key_of_def dedup_key_def)
    then show ?thesis by (subst if_P[OF q], subst if_not_P[OF False])
  qed
qed

theorem extractHotWallet_inserts_iff_printable_hot_wallet_witness:
  "extractHotWallet (acme_wallet ''bc1xyz'') [] (JStr ''Acme'') = Inr [(''bc1xyz@bitcoin'', acme_row ''bc1xyz'')] \<and>
   extractHotWallet (acme_wallet ''bc1xyz'') [] (JStr ''acme'') = Inr [] \<and>
   extractHotWallet (JObj [(''address'', JStr ''bc1xyz''), (''chain'', JStr ''bitcoin''),
                           (''arkhamEntity'', JObj [(''name'', JStr ''Acme'')]),
                           (''arkhamLabel'', JObj [(''name'', JStr ''hot wallet'')])])
       [] (JStr ''Acme'') = Inr [] \<and>
   extractHotWallet JNull [] JUndefined = Inr [] \<and>
   extractHotWallet (JObj [(''address'', JStr ''bc1xyz''), (''chain'', JObj [(''toString'', JNull)]),
                           (''arkhamEntity'', JObj [(''name'', JStr ''Acme'')]),
                           (''arkhamLabel'', JObj [(''name'', JStr ''Hot Wallet'')])])
       [(''bc1xyz@bitcoin'', acme_row ''bc1xyz'')] (JStr ''Acme'') = Inl TypeError"
  using extractHotWallet_inserts_iff_printable_hot_wallet[of "acme_wallet ''bc1xyz''" "JStr ''Acme''" "[]"]
    extractHotWallet_inserts_iff_printable_hot_wallet[of "JObj [(''address'', JStr ''bc1xyz''),
        (''chain'', JStr ''bitcoin''), (''arkhamEntity'', JObj [(''name'', JStr ''Acme'')]),
        (''arkhamLabel'', JObj [(''name'', JStr ''hot wallet'')])]" "JStr ''Acme''" "[]"]
    extractHotWallet_inserts_iff_printable_hot_wallet[of "acme_wallet ''bc1xyz''" "JStr ''acme''" "[]"]
    extractHotWallet_inserts_iff_printable_hot_wallet[of JNull JUndefined "[]"]
    extractHotWallet_inserts_iff_printable_hot_wallet[of "JObj [(''address'', JStr ''bc1xyz''),
        (''chain'', JObj [(''toString'', JNull)]), (''arkhamEntity'', JObj [(''name'', JStr ''Acme'')]),
        (''arkhamLabel'', JObj [(''name'', JStr ''Hot Wallet'')])]" "JStr ''Acme''"
        "[(''bc1xyz@bitcoin'', acme_row ''bc1xyz'')]"]
  by (auto simp: ex_defs)

text \<open>
  Claim C8.  Whatever records have been run through \<^verbatim>\<open>extractHotWallet\<close> on a chain's
  map without an exception, starting from the empty map, no two entries of the map have
  the same key; as an exception leaves the map as it was, this covers the map at every
  moment.  And when two qualifying records \<open>a\<close> and \<open>b\<close> that give the same key \<open>k\<close> are
  inserted one after the other, into any map, both insertions succeed, the map holds the
  row of \<open>a\<close> under \<open>k\<close> after the first and the row of \<open>b\<close> under \<open>k\<close> after the second.
\<close>

theorem merged_keys_unique_last_write_wins:
  "(\<forall>m. extract_all rs [] n = Inr m \<longrightarrow> distinct (map fst m)) \<and>
   (qualifies a n \<and> qualifies b n \<and> key_of a = Inr k \<and> key_of b = Inr k \<longrightarrow>
      (\<exists>wa wb m1 m2. row_of a = Inr wa \<and> row_of b = Inr wb \<and>
         extractHotWallet a m0 n = Inr m1 \<and> map_of m1 k = Some wa \<and>
         extract_all [a, b] m0 n = Inr m2 \<and> map_of m2 k = Some wb \<and>
         map fst m2 = map fst m1))"
proof (intro conjI allI impI)
  fix m assume "extract_all rs [] n = Inr m"
  then show "distinct (map fst m)" using extract_all_distinct[of "[]" rs n m] by simp
next
  assume h: "qualifies a n \<and> qualifies b n \<and> key_of a = Inr k \<and> key_of b = Inr k"
  then obtain wa wb where w: "row_of a = Inr wa" "row_of b = Inr wb"
    using key_row_of[of a k] key_row_of[of b k] by blast
  have m1: "extractHotWallet a m0 n = Inr (obj_set k wa m0)"
    using h w by (simp add: extractHotWallet_eq)
  have m2: "extract_all [a, b] m0 n = Inr (obj_set k wb (obj_set k wa m0))"
    using h w m1 by (simp add: extractHotWallet_eq)
  have "k \<in> fst ` set (obj_set k wa m0)"
    using map_of_obj_set[of k wa m0] by (metis domI dom_map_of_conv_image_fst fun_upd_same)
  then have "map fst (obj_set k wb (obj_set k wa m0)) = map fst (obj_set k wa m0)"
    by (simp add: map_fst_obj_set)
  then show "\<exists>wa wb m1 m2. row_of a = Inr wa \<and> row_of b = Inr wb \<and>
         extractHotWallet a m0 n = Inr m1 \<and> map_of m1 k = Some wa \<and>
         extract_all [a, b] m0 n = Inr m2 \<and> map_of m2 k = Some wb \<and>
         map fst m2 = map fst m1"
    using w m1 m2 by (simp add: map_of_obj_set)
qed

theorem merged_keys_unique_last_write_wins_witness:
  "qualifies (acme_wallet ''7'') (JStr ''Acme'') \<and> qualifies numeric_wallet (JStr ''Acme'') \<and>
   key_of (acme_wallet ''7'') = Inr ''7@bitcoin'' \<and> key_of numeric_wallet = Inr ''7@bitcoin'' \<and>
   row_of (acme_wallet ''7'') = Inr (acme_row ''7'') \<and>
   row_of numeric_wallet = Inr ((acme_row ''7'')\<lparr>address := JNum ''7''\<rparr>) \<and>
   extractHotWallet (acme_wallet ''7'') [] (JStr ''Acme'') = Inr [(''7@bitcoin'', acme_row ''7'')] \<and>
   extract_all [acme_wallet ''7'', numeric_wallet] [] (JStr ''Acme'')
     = Inr [(''7@bitcoin'', (acme_row ''7'')\<lparr>address := JNum ''7''\<rparr>)] \<and>
   distinct (map fst [(''7@bitcoin'', (acme_row ''7'')\<lparr>address := JNum ''7''\<rparr>)])"
proof -
  have h: "qualifies (acme_wallet ''7'') (JStr ''Acme'') \<and> qualifies numeric_wallet (JStr ''Acme'') \<and>
       key_of (acme_wallet ''7'') = Inr ''7@bitcoin'' \<and> key_of numeric_wallet = Inr ''7@bitcoin''"
    by (simp add: ex_defs numeric_wallet_def)
  have r: "row_of (acme_wallet ''7'') = Inr (acme_row ''7'')"
    "row_of numeric_wallet = Inr ((acme_row ''7'')\<lparr>address := JNum ''7''\<rparr>)"
    by (simp_all add: ex_defs numeric_wallet_def)
  have e: "extractHotWallet (acme_wallet ''7'') [] (JStr ''Acme'') = Inr [(''7@bitcoin'', acme_row ''7'')]"
    "extract_all [acme_wallet ''7'', numeric_wallet] [] (JStr ''Acme'')
     = Inr [(''7@bitcoin'', (acme_row ''7'')\<lparr>address := JNum ''7''\<rparr>)]"
    by (simp_all add: extractHotWallet_def ex_defs numeric_wallet_def)
  from merged_keys_unique_last_write_wins[of "[acme_wallet ''7'', numeric_wallet]" "JStr ''Acme''"
      "acme_wallet ''7''" numeric_wallet "''7@bitcoin''" "[]"] h r e
  show ?thesis by simp
qed

section \<open>The rows a page adds\<close>

lemma obj_set_keys:
  "\<exists>ks. map fst (obj_set k v m) = map fst m @ ks \<and> set ks \<inter> fst ` set m = {}"
  by (cases "k \<in> fst ` set m") (auto simp: map_fst_obj_set)

lemma extract_tx_cases:
  "extract_tx tx m n = Inr m' \<Longrightarrow> m' = m \<or> (\<exists>k v. m' = obj_set k v m)"
  by (auto simp: extract_tx_def split: sum.splits if_splits dest: extractHotWallet_cases)

lemma extract_tx_keys:
  assumes "extract_tx tx m n = Inr m'"
  shows "\<exists>ks. map fst m' = map fst m @ ks \<and> set ks \<inter> fst ` set m = {}"
proof -
  from extract_tx_cases[OF assms] show ?thesis
  proof
    assume "m' = m"
    then have "map fst m' = map fst m @ [] \<and> set [] \<inter> fst ` set m = {}" by simp
    then show ?thesis by (rule exI)
  next
    assume "\<exists>k v. m' = obj_set k v m"
    then obtain k v where "m' = obj_set k v m" by blast
    then show ?thesis using obj_set_keys[of k v m] by simp
  qed
qed

lemma extract_tx_distinct:
  assumes "extract_tx tx m n = Inr m'" and "distinct (map fst m)"
  shows "distinct (map fst m')"
proof -
  from extract_tx_cases[OF assms(1)] show ?thesis
  proof
    assume "m' = m" then show ?thesis using assms(2) by simp
  next
    assume "\<exists>k v. m' = obj_set k v m"
    then obtain k v where "m' = obj_set k v m" by blast
    then show ?thesis using distinct_obj_set[OF assms(2)] by simp
  qed
qed

lemma forEach_tx_Cons:
  "forEach_tx (tx # ts) m n = Inr m' \<Longrightarrow>
     \<exists>m1. extract_tx tx m n = Inr m1 \<and> forEach_tx ts m1 n = Inr m'"
  by (cases "extract_tx tx m n") simp_all

lemma forEach_tx_keys:
  "forEach_tx ts m n = Inr m' \<Longrightarrow>
     \<exists>ks. map fst m' = map fst m @ ks \<and> set ks \<inter> fst ` set m = {}"
proof (induction ts arbitrary: m)
  case Nil
  then show ?case by simp
next
  case (Cons tx ts)
  from forEach_tx_Cons[OF Cons.prems(1)] obtain m1
    where s1: "extract_tx tx m n = Inr m1" and s2: "forEach_tx ts m1 n = Inr m'" by blast
  from extract_tx_keys[OF s1] obtain ks1 where
    k1: "map fst m1 = map fst m @ ks1" "set ks1 \<inter> fst ` set m = {}" by blast
  from Cons.IH[OF s2] obtain ks2 where
    k2: "map fst m' = map fst m1 @ ks2" "set ks2 \<inter> fst ` set m1 = {}" by blast
  have "set (map fst m) \<subseteq> set (map fst m1)"
    unfolding k1(1) by simp
  then have "fst ` set m \<subseteq> fst ` set m1" by simp
  then have "set ks2 \<inter> fst ` set m = {}" using k2(2) by blast
  then have "set (ks1 @ ks2) \<inter> fst ` set m = {}" using k1(2) by (simp add: Int_Un_distrib2)
  moreover have "map fst m' = map fst m @ (ks1 @ ks2)" using k1(1) k2(1) by simp
  ultimately show ?case by blast
qed

lemma forEach_tx_distinct:
  "forEach_tx ts m n = Inr m' \<Longrightarrow> distinct (map fst m) \<Longrightarrow> distinct (map fst m')"
proof (induction ts arbitrary: m)
  case Nil
  then show ?case by simp
next
  case (Cons tx ts)
  from forEach_tx_Cons[OF Cons.prems(1)] obtain m1
    where s1: "extract_tx tx m n = Inr m1" and s2: "forEach_tx ts m1 n = Inr m'" by blast
  show ?case by (rule Cons.IH[OF s2 extract_tx_distinct[OF s1 Cons.prems(2)] ])
qed

lemma filter_new_keys:
  assumes "map fst m' = a @ ks" and "set ks \<inter> set a = {}"
  shows "filter (\<lambda>kv. fst kv \<notin> set a) m' = drop (length a) m'"
proof -
  from assms(1) obtain m1 m2 where m: "m' = m1 @ m2" "map fst m1 = a" "map fst m2 = ks"
    by (auto simp: map_eq_append_conv)
  have l: "length m1 = length a" using m(2) by (metis length_map)
  have "\<forall>kv \<in> set m1. fst kv \<in> set a" unfolding m(2)[symmetric] by simp
  then have f1: "filter (\<lambda>kv. fst kv \<notin> set a) m1 = []" by (simp add: filter_empty_conv)
  have "\<forall>kv \<in> set m2. fst kv \<in> set ks" unfolding m(3)[symmetric] by simp
  then have "\<forall>kv \<in> set m2. fst kv \<notin> set a" using assms(2) by blast
  then have f2: "filter (\<lambda>kv. fst kv \<notin> set a) m2 = m2" by (simp add: filter_id_conv)
  show ?thesis unfolding m(1) using f1 f2 l by simp
qed

lemma new_rows:
  assumes f: "forEach_tx ts m n = Inr m'"
  shows "slice_last (length m' - length m) (map snd m') =
         map snd (filter (\<lambda>kv. fst kv \<notin> fst ` set m) m')"
    and "length (filter (\<lambda>kv. fst kv \<notin> fst ` set m) m') = length m' - length m"
    and "length m \<le> length m'"
proof -
  from forEach_tx_keys[OF f] obtain ks where
    k: "map fst m' = map fst m @ ks" "set ks \<inter> fst ` set m = {}" by blast
  have len: "length m' = length m + length ks"
    using arg_cong[OF k(1), of length] by simp
  have fl: "filter (\<lambda>kv. fst kv \<notin> fst ` set m) m' = drop (length m) m'"
    using filter_new_keys[of m' "map fst m" ks] k by simp
  show "length m \<le> length m'" using len by simp
  show "slice_last (length m' - length m) (map snd m') =
         map snd (filter (\<lambda>kv. fst kv \<notin> fst ` set m) m')"
    unfolding fl slice_last_def using len by (simp add: drop_map)
  show "length (filter (\<lambda>kv. fst kv \<notin> fst ` set m) m') = length m' - length m"
    unfolding fl by simp
qed

lemmas run_defs = runCrawler_def run_settled_def run_events_def run_start_def start_def runOne.simps
  totalChains_def promise_all_def deliver_def crawl_launch_def crawl_step_def page_body_def
  settle_chain_def settle_def chain_failed_def chain_done_def chain_finally_def extract_tx_def
  extractHotWallet_def Let_def dedup_key_def make_row_def slice_last_def

text \<open>
  Claim C6.  When a page of records has been merged into a chain's map without an
  exception, the map still has distinct keys, the rows whose keys were not in the map before
  the page are as many as the number of distinct keys has grown by, and, if there is such a
  row, \<^verbatim>\<open>appendResults\<close> is called once more, with exactly these rows; if there is none it
  is not called.
\<close>

theorem incremental_rows_are_new:
  assumes "page_body job j i m (Transfers ts) C = Inr (C', nxt)" and "ts \<noteq> []"
    and "distinct (map fst m)"
  shows "let m' = merged_of nxt;
             new = filter (\<lambda>kv. fst kv \<notin> fst ` set m) m'
         in distinct (map fst m') \<and>
            length new = card (fst ` set m') - card (fst ` set m) \<and>
            appended C' = (if new = [] then appended C else appended C @ [map snd new])"
proof -
  from assms(1,2) obtain m' where f: "forEach_tx ts m (entityName job) = Inr m'"
    by (auto simp: page_body_def Let_def split: sum.splits)
  from assms(1,2) f have nxt: "merged_of nxt = m'"
    by (auto simp: page_body_def Let_def merged_of_def split: if_splits)
  have d': "distinct (map fst m')" using forEach_tx_distinct[OF f assms(3)] .
  have c: "card (fst ` set m) = length m" "card (fst ` set m') = length m'"
    using distinct_card[OF assms(3)] distinct_card[OF d'] by simp_all
  note nr = new_rows[OF f]
  have app: "appended C' = (if 0 < length m' - length m
        then appended C @ [slice_last (length m' - length m) (map snd m')] else appended C)"
    using assms(1,2) f by (auto simp: page_body_def Let_def split: if_splits)
  show ?thesis
    unfolding Let_def nxt using d' c nr app by (auto simp: )
qed

theorem incremental_rows_are_new_witness:
  "page_body timeout_job 0 0 [(''bc1xyz@bitcoin'', acme_row ''old'')]
      (Transfers [sent_by (acme_wallet ''bc1xyz''), sent_by (acme_wallet ''bc1abc'')])
      (shared (run_start timeout_job))
    = Inr ((shared (run_start timeout_job))
             \<lparr>chainStatus := [InProgress 1 2 2], completedPages := 1, progress := [1],
              appended := [ [acme_row ''bc1abc''] ]\<rparr>,
           Continue 1 [(''bc1xyz@bitcoin'', acme_row ''bc1xyz''), (''bc1abc@bitcoin'', acme_row ''bc1abc'')])"
proof -
  let ?m = "[(''bc1xyz@bitcoin'', acme_row ''old'')]"
  let ?ts = "[sent_by (acme_wallet ''bc1xyz''), sent_by (acme_wallet ''bc1abc'')]"
  let ?C = "shared (run_start timeout_job)"
  let ?C' = "?C\<lparr>chainStatus := [InProgress 1 2 2], completedPages := 1, progress := [1],
              appended := [ [acme_row ''bc1abc''] ]\<rparr>"
  let ?nxt = "Continue 1 [(''bc1xyz@bitcoin'', acme_row ''bc1xyz''), (''bc1abc@bitcoin'', acme_row ''bc1abc'')]"
  have h1: "page_body timeout_job 0 0 ?m (Transfers ?ts) ?C = Inr (?C', ?nxt)"
    by (simp add: run_defs timeout_job_def ex_defs)
  have h2: "?ts \<noteq> []" by simp
  have h3: "distinct (map fst ?m)" by simp
  from incremental_rows_are_new[OF h1 h2 h3] h1 show ?thesis by simp
qed

section \<open>The export round trip\<close>

lemma chars_distinct [simp]:
  "comma \<noteq> dquote" "dquote \<noteq> comma" "newline \<noteq> dquote" "dquote \<noteq> newline"
  "comma \<noteq> newline" "newline \<noteq> comma"
  by (simp_all add: comma_def dquote_def newline_def)

lemma parse_at_delim:
  "at_delim rest \<Longrightarrow> md \<noteq> Quoted \<Longrightarrow> csv_parse md f r rs rest = csv_parse Plain f r rs rest"
  by (cases rest; cases md) (auto simp: at_delim_def)

lemma parse_plain_run:
  "dquote \<notin> set s \<Longrightarrow> comma \<notin> set s \<Longrightarrow> newline \<notin> set s \<Longrightarrow>
     csv_parse Plain f r rs (s @ rest) = csv_parse Plain (f @ s) r rs rest"
  by (induction s arbitrary: f) auto

lemma parse_plain_field:
  assumes "dquote \<notin> set s" "comma \<notin> set s" "newline \<notin> set s" "at_delim rest"
  shows "csv_parse FieldStart [] r rs (s @ rest) = csv_parse Plain s r rs rest"
proof (cases s)
  case Nil
  then show ?thesis using parse_at_delim[OF assms(4), of FieldStart] by simp
next
  case (Cons c cs)
  then have "csv_parse FieldStart [] r rs (s @ rest) = csv_parse Plain [c] r rs (cs @ rest)"
    using assms(1-3) by auto
  also have "\<dots> = csv_parse Plain ([c] @ cs) r rs rest"
    using assms(1-3) Cons by (intro parse_plain_run) auto
  finally show ?thesis using Cons by simp
qed

lemma parse_quoted_body:
  "at_delim rest \<Longrightarrow>
     csv_parse Quoted f r rs (csv_escape s @ dquote # rest) = csv_parse AfterQuote (f @ s) r rs rest"
  by (induction s arbitrary: f) (auto simp: csv_escape_def)

lemma parse_field:
  assumes "at_delim rest"
  shows "csv_parse FieldStart [] r rs (csv_field s @ rest) = csv_parse Plain s r rs rest"
proof (cases "dquote \<in> set s \<or> comma \<in> set s \<or> newline \<in> set s")
  case True
  then have "csv_parse FieldStart [] r rs (csv_field s @ rest)
      = csv_parse Quoted [] r rs (csv_escape s @ dquote # rest)"
    by (simp add: csv_field_def)
  also have "\<dots> = csv_parse AfterQuote s r rs rest"
    using parse_quoted_body[OF assms, of "[]"] by simp
  also have "\<dots> = csv_parse Plain s r rs rest"
    using parse_at_delim[OF assms, of AfterQuote] by simp
  finally show ?thesis .
next
  case False
  then show ?thesis using parse_plain_field[OF _ _ _ assms, of s] by (simp add: csv_field_def)
qed

lemma parse_line:
  "fs \<noteq> [] \<Longrightarrow> rest = [] \<or> hd rest = newline \<Longrightarrow>
     csv_parse FieldStart [] r rs (csv_line fs @ rest) = csv_parse Plain (last fs) (r @ butlast fs) rs rest"
proof (induction fs arbitrary: r rule: induct_list012)
  case 1
  then show ?case by simp
next
  case (2 x)
  then have "at_delim rest" by (cases rest) (auto simp: at_delim_def)
  then show ?case using parse_field[of rest r rs x] by (simp add: csv_line_def)
next
  case (3 x y zs)
  have d: "at_delim (comma # csv_line (y # zs) @ rest)" by (simp add: at_delim_def)
  have "csv_parse FieldStart [] r rs (csv_line (x # y # zs) @ rest)
      = csv_parse Plain x r rs (comma # csv_line (y # zs) @ rest)"
    using parse_field[OF d, of r rs x] by (simp add: csv_line_def)
  also have "\<dots> = csv_parse FieldStart [] (r @ [x]) rs (csv_line (y # zs) @ rest)" by simp
  also have "\<dots> = csv_parse Plain (last (y # zs)) ((r @ [x]) @ butlast (y # zs)) rs rest"
    using 3 by blast
  finally show ?case by simp
qed

lemma parse_lines:
  "recs \<noteq> [] \<Longrightarrow> [] \<notin> set recs \<Longrightarrow>
     csv_parse FieldStart [] [] rs (join [newline] (map csv_line recs)) = rs @ recs"
proof (induction recs arbitrary: rs rule: induct_list012)
  case 1
  then show ?case by simp
next
  case (2 fs)
  then have "fs \<noteq> []" by auto
  then show ?case using parse_line[of fs "[]" "[]" rs] by simp
next
  case (3 fs g gs)
  then have ne: "fs \<noteq> []" by auto
  have "csv_parse FieldStart [] [] rs (join [newline] (map csv_line (fs # g # gs)))
     = csv_parse Plain (last fs) (butlast fs) rs (newline # join [newline] (map csv_line (g # gs)))"
    using parse_line[OF ne, of "newline # join [newline] (map csv_line (g # gs))" "[]" rs] by simp
  also have "\<dots> = csv_parse FieldStart [] [] (rs @ [fs]) (join [newline] (map csv_line (g # gs)))"
    using ne by simp
  also have "\<dots> = (rs @ [fs]) @ (g # gs)" using 3 by auto
  finally show ?case by simp
qed

lemma header_line: "join [comma] csv_header = csv_line csv_header"
  by (simp add: csv_header_def csv_line_def csv_field_def comma_def dquote_def newline_def)

lemma row_fields_printable:
  assumes "printable_row w"
  shows "\<exists>fs. row_fields w = Inr fs \<and> fs \<noteq> []"
proof -
  from assms obtain c a l where "to_string (chain w) = Inr c" "to_string (address w) = Inr a"
    "to_string (label w) = Inr l"
    by (auto simp: printable_row_def printable_iff(1))
  then show ?thesis by (simp add: row_fields_def)
qed

lemma row_fields_unprintable:
  assumes "\<not> printable_row w"
  shows "row_fields w = Inl TypeError"
proof -
  from assms have "\<not> printable (chain w) \<or> \<not> printable (address w) \<or> \<not> printable (label w)"
    by (simp add: printable_row_def)
  then have "to_string (chain w) = Inl TypeError \<or> to_string (address w) = Inl TypeError \<or>
      to_string (label w) = Inl TypeError"
    by (simp only: printable_iff(2))
  then show ?thesis
    using to_string_error(1)[of "chain w"] to_string_error(1)[of "address w"]
    by (cases "to_string (chain w)"; cases "to_string (address w)") (auto simp: row_fields_def)
qed

lemma rows_fields_error: "rows_fields rows = Inl e \<Longrightarrow> e = TypeError"
proof (induction rows)
  case Nil
  then show ?case by simp
next
  case (Cons w rows)
  show ?case
  proof (cases "printable_row w")
    case True
    from row_fields_printable[OF this] obtain fs where "row_fields w = Inr fs" by blast
    then show ?thesis using Cons by (cases "rows_fields rows") simp_all
  next
    case False
    then show ?thesis using Cons.prems row_fields_unprintable[of w] by simp
  qed
qed

lemma rows_fields_printable:
  "\<forall>w \<in> set rows. printable_row w \<Longrightarrow>
     \<exists>fss. rows_fields rows = Inr fss \<and> map row_fields rows = map Inr fss \<and> [] \<notin> set fss"
proof (induction rows)
  case Nil
  then show ?case by simp
next
  case (Cons w rows)
  then have "printable_row w" by simp
  from row_fields_printable[OF this] obtain fs where fs: "row_fields w = Inr fs" "fs \<noteq> []"
    by blast
  from Cons obtain fss where fss: "rows_fields rows = Inr fss"
    "map row_fields rows = map Inr fss" "[] \<notin> set fss"
    by auto
  have "rows_fields (w # rows) = Inr (fs # fss) \<and>
      map row_fields (w # rows) = map Inr (fs # fss) \<and> [] \<notin> set (fs # fss)"
    using fs fss by auto
  then show ?case by (rule exI)
qed

lemma rows_fields_unprintable:
  "\<not> (\<forall>w \<in> set rows. printable_row w) \<Longrightarrow> rows_fields rows = Inl TypeError"
proof (induction rows)
  case Nil
  then show ?case by simp
next
  case (Cons w rows)
  show ?case
  proof (cases "printable_row w")
    case False
    then show ?thesis using row_fields_unprintable[of w] by simp
  next
    case True
    from row_fields_printable[OF this] obtain fs where fs: "row_fields w = Inr fs" by blast
    from True Cons.prems have "\<not> (\<forall>w \<in> set rows. printable_row w)" by simp
    then have "rows_fields rows = Inl TypeError" by (rule Cons.IH)
    then show ?thesis using fs by simp
  qed
qed

lemma parse_export:
  assumes "[] \<notin> set fss"
  shows "parseCSV (join [newline] (''chain,address,arkm_url,label'' # map csv_line fss))
           = [''chain'', ''address'', ''arkm_url'', ''label''] # fss"
proof -
  have "''chain,address,arkm_url,label'' = csv_line csv_header"
    using header_line by (simp add: csv_header_def comma_def)
  then have "join [newline] (''chain,address,arkm_url,label'' # map csv_line fss)
      = join [newline] (map csv_line (csv_header # fss))"
    by simp
  moreover have "[] \<notin> set (csv_header # fss)" using assms by (auto simp: csv_header_def)
  ultimately have "parseCSV (join [newline] (''chain,address,arkm_url,label'' # map csv_line fss))
      = csv_header # fss"
    using parse_lines[of "csv_header # fss" "[]"] by (simp add: parseCSV_def)
  then show ?thesis by (simp add: csv_header_def)
qed

text \<open>
  Claim C9.  \<^verbatim>\<open>toCSV\<close> writes the header line \<^verbatim>\<open>chain,address,arkm_url,label\<close> and
  then one record per row, joined by newlines, a record being the row's four texts joined
  by commas, each wrapped in double quotes with its double quotes doubled when it has a
  comma, a double quote or a newline in it.  Reading that back gives the header followed
  by one record per row whose four fields are the texts of the row's four values,
  whatever commas, double quotes and newlines they contain.  This holds for all rows whose
  values \<^verbatim>\<open>String\<close> converts to text, as it does the values of every row that
  \<^verbatim>\<open>extractHotWallet\<close> stores; on any other rows \<^verbatim>\<open>toCSV\<close> throws a TypeError and
  there is no encoding to read.
\<close>

theorem toCSV_round_trip:
  "if \<forall>w \<in> set rows. printable_row w
   then \<exists>fss. map row_fields rows = map Inr fss \<and>
          toCSV rows
            = Inr (join [newline] (''chain,address,arkm_url,label'' # map csv_line fss)) \<and>
          parseCSV (join [newline] (''chain,address,arkm_url,label'' # map csv_line fss))
            = [''chain'', ''address'', ''arkm_url'', ''label''] # fss
   else toCSV rows = Inl TypeError"
proof (cases "\<forall>w \<in> set rows. printable_row w")
  case True
  from rows_fields_printable[OF True] obtain fss where fss: "rows_fields rows = Inr fss"
    "map row_fields rows = map Inr fss" "[] \<notin> set fss"
    by blast
  have c: "csv_line = (\<lambda>fs. join [comma] (map csv_field fs))"
    by (rule ext) (simp add: csv_line_def)
  have "toCSV rows = Inr (join [newline] (''chain,address,arkm_url,label'' # map csv_line fss))"
    using fss(1) unfolding c by (simp add: toCSV_def csv_header_def comma_def)
  then have "\<exists>fss. map row_fields rows = map Inr fss \<and>
          toCSV rows
            = Inr (join [newline] (''chain,address,arkm_url,label'' # map csv_line fss)) \<and>
          parseCSV (join [newline] (''chain,address,arkm_url,label'' # map csv_line fss))
            = [''chain'', ''address'', ''arkm_url'', ''label''] # fss"
    using fss(2) parse_export[OF fss(3)] by blast
  then show ?thesis by (subst if_P[OF True])
next
  case False
  have "toCSV rows = Inl TypeError"
    using rows_fields_unprintable[OF False] by (simp add: toCSV_def)
  then show ?thesis by (subst if_not_P[OF False])
qed

theorem toCSV_round_trip_witness:
  "printable_row \<lparr>chain = JStr ''bitcoin'', address = JStr ''1A2b,3C'', arkm_url = ''https://x'',
                  label = JStr ''Hot Wallet''\<rparr> \<and>
   row_fields \<lparr>chain = JStr ''bitcoin'', address = JStr ''1A2b,3C'', arkm_url = ''https://x'',
               label = JStr ''Hot Wallet''\<rparr>
     = Inr [''bitcoin'', ''1A2b,3C'', ''https://x'', ''Hot Wallet''] \<and>
   toCSV [\<lparr>chain = JStr ''bitcoin'', address = JStr ''1A2b,3C'', arkm_url = ''https://x'',
           label = JStr ''Hot Wallet''\<rparr>]
     = Inr (join [newline] [''chain,address,arkm_url,label'',
                            csv_line [''bitcoin'', ''1A2b,3C'', ''https://x'', ''Hot Wallet''] ]) \<and>
   csv_line [''bitcoin'', ''1A2b,3C'', ''https://x'', ''Hot Wallet'']
     = ''bitcoin,'' @ [dquote] @ ''1A2b,3C'' @ [dquote] @ '',https://x,Hot Wallet'' \<and>
   parseCSV (join [newline] [''chain,address,arkm_url,label'',
                             csv_line [''bitcoin'', ''1A2b,3C'', ''https://x'', ''Hot Wallet''] ])
     = [ [''chain'', ''address'', ''arkm_url'', ''label''],
        [''bitcoin'', ''1A2b,3C'', ''https://x'', ''Hot Wallet''] ] \<and>
   toCSV [\<lparr>chain = JObj [(''toString'', JNull)], address = JStr ''1A2b,3C'', arkm_url = ''https://x'',
           label = JStr ''Hot Wallet''\<rparr>] = Inl TypeError"
proof -
  let ?w = "\<lparr>chain = JStr ''bitcoin'', address = JStr ''1A2b,3C'', arkm_url = ''https://x'',
             label = JStr ''Hot Wallet''\<rparr>"
  have p: "printable_row ?w" by (simp add: printable_row_def printable_def)
  have f: "row_fields ?w = Inr [''bitcoin'', ''1A2b,3C'', ''https://x'', ''Hot Wallet'']"
    by (simp add: row_fields_def)
  have l: "csv_line [''bitcoin'', ''1A2b,3C'', ''https://x'', ''Hot Wallet'']
     = ''bitcoin,'' @ [dquote] @ ''1A2b,3C'' @ [dquote] @ '',https://x,Hot Wallet''"
    by (simp add: csv_line_def csv_field_def csv_escape_def comma_def dquote_def newline_def)
  have u: "\<not> printable_row \<lparr>chain = JObj [(''toString'', JNull)], address = JStr ''1A2b,3C'',
      arkm_url = ''https://x'', label = JStr ''Hot Wallet''\<rparr>"
    by (simp add: printable_row_def printable_def)
  from toCSV_round_trip[of "[?w]"] p f
  have "toCSV [?w]
     = Inr (join [newline] [''chain,address,arkm_url,label'',
                            csv_line [''bitcoin'', ''1A2b,3C'', ''https://x'', ''Hot Wallet''] ]) \<and>
   parseCSV (join [newline] [''chain,address,arkm_url,label'',
                             csv_line [''bitcoin'', ''1A2b,3C'', ''https://x'', ''Hot Wallet''] ])
     = [ [''chain'', ''address'', ''arkm_url'', ''label''],
        [''bitcoin'', ''1A2b,3C'', ''https://x'', ''Hot Wallet''] ]"
    by (auto simp: map_eq_Cons_conv Cons_eq_map_conv)
  moreover from toCSV_round_trip[of "[\<lparr>chain = JObj [(''toString'', JNull)],
      address = JStr ''1A2b,3C'', arkm_url = ''https://x'', label = JStr ''Hot Wallet''\<rparr>]"] u
  have "toCSV [\<lparr>chain = JObj [(''toString'', JNull)], address = JStr ''1A2b,3C'',
      arkm_url = ''https://x'', label = JStr ''Hot Wallet''\<rparr>] = Inl TypeError"
    by simp
  ultimately show ?thesis using p f l by blast
qed

section \<open>Page size and page count\<close>

lemma clamp_limit_range:
  "\<exists>x. clamp_limit v = Fin x \<and> 1 \<le> x \<and> x \<le> 1000 \<and> (v = NaN \<or> v = Fin 0 \<longrightarrow> x = 500)"
  by (cases v) (auto simp: clamp_limit_def Math_max_def Math_min_def or_default_def)

lemma clamp_pages_range:
  "\<exists>x. clamp_pages v = Fin x \<and> 1 \<le> x \<and> x \<le> 10 \<and> (v = NaN \<or> v = Fin 0 \<longrightarrow> x = 3)"
  by (cases v) (auto simp: clamp_pages_def Math_max_def Math_min_def or_default_def)

text \<open>
  Claim C10.  Whatever number the page-size input gives, the page size of the run is
  between 1 and 1000, and whatever the page-count input gives, the page count is between 1
  and 10; an input that is no number (\<^verbatim>\<open>NaN\<close>) or is missing (the empty text, which is 0)
  gives 500 and 3, a finite value other than 0 is cut to the range, and the infinities go
  to its ends.
\<close>

theorem page_size_and_page_count_are_clamped:
  "(\<exists>x. clamp_limit v = Fin x \<and> 1 \<le> x \<and> x \<le> 1000) \<and>
   (\<exists>y. clamp_pages w = Fin y \<and> 1 \<le> y \<and> y \<le> 10) \<and>
   clamp_limit NaN = Fin 500 \<and> clamp_limit (Fin 0) = Fin 500 \<and>
   clamp_pages NaN = Fin 3 \<and> clamp_pages (Fin 0) = Fin 3 \<and>
   clamp_limit (Fin r) = Fin (if r = 0 then 500 else max 1 (min 1000 r)) \<and>
   clamp_pages (Fin r) = Fin (if r = 0 then 3 else max 1 (min 10 r)) \<and>
   clamp_limit PosInf = Fin 1000 \<and> clamp_limit NegInf = Fin 1 \<and>
   clamp_pages PosInf = Fin 10 \<and> clamp_pages NegInf = Fin 1"
  using clamp_limit_range[of v] clamp_pages_range[of w]
  by (auto simp: clamp_limit_def clamp_pages_def Math_max_def Math_min_def or_default_def)

section \<open>The transport\<close>

lemma params_set_url: "map snd (filter (\<lambda>q. fst q = k) (params_set k v ps)) = [v]"
  by (induction ps) auto

lemma headers_get_set: "headers_get (headers_set h a v) a = Some v"
  by (simp add: headers_get_def headers_set_def map_of_obj_set)

lemma headers_get_set_other:
  "lower b \<noteq> lower a \<Longrightarrow> headers_get (headers_set h a v) b = headers_get h b"
  by (simp add: headers_get_def headers_set_def map_of_obj_set)

lemma headers_get_delete: "headers_get (headers_delete h a) a = None"
  by (induction h) (auto simp: headers_get_def headers_delete_def)

lemma lower_api: "lower ''API-Key'' = ''api-key''" by (simp add: lower_def lower_char_def)

lemma lower_xapi: "lower ''X-API-Key'' = ''x-api-key''" by (simp add: lower_def lower_char_def)

text \<open>
  Claim C5.  \<^verbatim>\<open>fetchWithProxyFirst\<close> issues the direct request first.  It issues a second
  request if and only if the direct one is rejected and a proxy base is given, is not
  empty and parses as a URL; that second request is the only one through the proxy, its
  URL has the original target as its one \<^verbatim>\<open>url\<close> parameter, a non-empty \<^verbatim>\<open>API-Key\<close>
  header has become the \<^verbatim>\<open>X-API-Key\<close> header, and its outcome is what the caller gets.
  In every other case the caller gets the outcome of the direct request: the rejection
  when there is no usable proxy, the response, whatever its status, when there is one.
\<close>

theorem transport_retries_once_through_proxy:
  fixes net :: "target \<times> 'o options \<Rightarrow> error + response"
  shows
  "let direct = (Literal u, opts);
       retry = ((\<exists>e. net direct = Inl e) \<and> (\<exists>p. proxy = Some p \<and> p \<noteq> [] \<and> parse_url p \<noteq> None));
       (res, calls) = fetchWithProxyFirst net parse_url u opts proxy
   in hd calls = direct \<and>
      (\<not> retry \<longrightarrow> calls = [direct] \<and> res = net direct) \<and>
      (retry \<longrightarrow>
         (\<exists>via h. calls = [direct, (Serialised via, opts\<lparr>headers := Some h\<rparr>)] \<and>
            res = net (Serialised via, opts\<lparr>headers := Some h\<rparr>) \<and>
            map snd (filter (\<lambda>q. fst q = ''url'') (searchParams via)) = [u] \<and>
            (\<forall>k. headers_get (headers_new (case headers opts of None \<Rightarrow> [] | Some hs \<Rightarrow> hs)) ''API-Key'' = Some k \<and> k \<noteq> [] \<longrightarrow>
                 headers_get h ''X-API-Key'' = Some k \<and> headers_get h ''API-Key'' = None)))"
  unfolding fetchWithProxyFirst_def Let_def buildProxyUrl_def
  by (auto split: sum.splits option.splits
      simp: params_set_url headers_get_set headers_get_set_other headers_get_delete lower_api lower_xapi)

theorem transport_retries_once_through_proxy_witness:
  "offline_net (Literal ''https://api.arkm.com/health'', keyed_options) = Inl (RequestError ''Failed to fetch'') \<and>
   relay_only ''https://relay.example/'' \<noteq> None \<and>
   headers_get (headers_new [(''API-Key'', ''k1'')]) ''API-Key'' = Some ''k1'' \<and>
   fetchWithProxyFirst offline_net relay_only ''https://api.arkm.com/health'' keyed_options
       (Some ''https://relay.example/'')
     = (Inr \<lparr>status = 200, body = ''ok''\<rparr>,
        [(Literal ''https://api.arkm.com/health'', keyed_options),
         (Serialised \<lparr>location = ''https://relay.example/'',
                      searchParams = [(''url'', ''https://api.arkm.com/health'')], fragment = []\<rparr>,
          \<lparr>headers = Some [(''x-api-key'', ''k1'')], others = ()\<rparr>)]) \<and>
   fetchWithProxyFirst offline_net relay_only ''https://api.arkm.com/health'' keyed_options None
     = (Inl (RequestError ''Failed to fetch''), [(Literal ''https://api.arkm.com/health'', keyed_options)])"
  using transport_retries_once_through_proxy[where net = offline_net
      and u = "''https://api.arkm.com/health''" and opts = keyed_options
      and proxy = "Some ''https://relay.example/''" and parse_url = relay_only]
    transport_retries_once_through_proxy[where net = offline_net
      and u = "''https://api.arkm.com/health''" and opts = keyed_options
      and proxy = None and parse_url = relay_only]
  by (simp add: fetchWithProxyFirst_def buildProxyUrl_def relay_only_def keyed_options_def
      headers_new_def headers_append_def headers_get_def headers_set_def headers_delete_def
      lower_api lower_xapi Let_def)

section \<open>The limiter\<close>

lemma runOne_rule:
  assumes "I P"
    and "\<And>Q. I Q \<Longrightarrow> nextIndex Q < n \<Longrightarrow>
       I (Q\<lparr>nextIndex := Suc (nextIndex Q), shared := task (nextIndex Q) (shared Q),
             running := running Q @ [nextIndex Q]\<rparr>)"
    and "\<And>Q. I Q \<Longrightarrow> running Q \<noteq> [] \<Longrightarrow> I (Q\<lparr>waiting := waiting Q @ [running Q]\<rparr>)"
    and "\<And>Q. I Q \<Longrightarrow> n \<le> nextIndex Q \<Longrightarrow> I (Q\<lparr>returned := Suc (returned Q)\<rparr>)"
  shows "I (runOne task n limit P)"
  using assms
proof (induction task n limit P rule: runOne.induct)
  case (1 task n limit P)
  note launch = "1.prems"(2) and suspend = "1.prems"(3) and return = "1.prems"(4)
  show ?case
  proof (cases "n \<le> nextIndex P")
    case True
    have "I (P\<lparr>returned := Suc (returned P)\<rparr>)" by (rule return[OF "1.prems"(1) True])
    moreover have "runOne task n limit P = P\<lparr>returned := Suc (returned P)\<rparr>"
      using True by (subst runOne.simps) simp
    ultimately show ?thesis by simp
  next
    case False
    let ?P' = "P\<lparr>nextIndex := Suc (nextIndex P), shared := task (nextIndex P) (shared P),
                   running := running P @ [nextIndex P]\<rparr>"
    have I': "I ?P'" by (rule launch[OF "1.prems"(1)]) (use False in simp)
    show ?thesis
    proof (cases "limit \<le> length (running ?P')")
      case True
      have "I (?P'\<lparr>waiting := waiting ?P' @ [running ?P']\<rparr>)" by (rule suspend[OF I']) simp
      moreover have "runOne task n limit P = ?P'\<lparr>waiting := waiting ?P' @ [running ?P']\<rparr>"
        using False True by (subst runOne.simps) (simp add: Let_def)
      ultimately show ?thesis by simp
    next
      case lim: False
      have "I (runOne task n limit ?P')"
        by (rule "1.IH"[OF False refl refl lim I' launch suspend return])
      moreover have "runOne task n limit P = runOne task n limit ?P'"
        using False lim by (subst runOne.simps) (simp add: Let_def)
      ultimately show ?thesis by simp
    qed
  qed
qed

lemma runOne_count:
  "returned (runOne task n limit P) + length (waiting (runOne task n limit P))
     = Suc (returned P + length (waiting P))"
proof (induction task n limit P rule: runOne.induct)
  case (1 task n limit P)
  show ?case
  proof (cases "n \<le> nextIndex P")
    case True
    then show ?thesis by (subst (1 2) runOne.simps) simp
  next
    case False
    let ?P' = "P\<lparr>nextIndex := Suc (nextIndex P), shared := task (nextIndex P) (shared P),
                   running := running P @ [nextIndex P]\<rparr>"
    show ?thesis
    proof (cases "limit \<le> length (running ?P')")
      case True
      then show ?thesis using False by (subst (1 2) runOne.simps) (simp add: Let_def)
    next
      case lim: False
      have "returned (runOne task n limit ?P') + length (waiting (runOne task n limit ?P'))
             = Suc (returned ?P' + length (waiting ?P'))"
        using "1.IH"[OF False refl refl lim] .
      then show ?thesis using False lim by (subst (1 2) runOne.simps) (simp add: Let_def)
    qed
  qed
qed

lemma funpow_rule: "I P \<Longrightarrow> (\<And>Q. I Q \<Longrightarrow> I (f Q)) \<Longrightarrow> I ((f ^^ k) P)"
  by (induction k) simp_all

lemma funpow_runOne_count:
  "returned (((runOne task n limit) ^^ k) P) + length (waiting (((runOne task n limit) ^^ k) P))
     = k + (returned P + length (waiting P))"
  by (induction k) (simp_all add: runOne_count)

text \<open>
  Claim C2.  The claim is that never more than \<open>limit\<close> workers are unresolved at once.
  With 18 items and limit 3, the input of the orchestrator, the starters alone leave five
  workers running before any of them can have settled: the first starter calls three and
  suspends, and each of the other two calls one more before it looks at the size of
  \<open>running\<close>.
\<close>

theorem mapWithConcurrency_exceeds_limit:
  "running (start task 18 3 s) = [0, 1, 2, 3, 4] \<and>
   waiting (start task 18 3 s) = [ [0, 1, 2], [0, 1, 2, 3], [0, 1, 2, 3, 4] ]"
  by (simp add: start_def runOne.simps eval_nat_numeral)

text \<open>
  Claim C7.  The claim is that slot \<open>j\<close> of the returned array holds the result of the
  worker of item \<open>j\<close>.  With two items and limit 3 both starters return at once, so the
  caller gets the array with both slots empty, whatever the workers do and whenever they
  settle.
\<close>

theorem mapWithConcurrency_resolves_early:
  "mapWithConcurrency [a, b] 3 task sched = Resolved [None, None]"
  by (cases sched)
     (simp_all add: mapWithConcurrency_def start_def runOne.simps eval_nat_numeral promise_all_def)

text \<open>
  The same on 18 items with limit 3: once six workers have settled the caller has the
  array, and twelve workers are still running.
\<close>

lemma limiter_18: 
  "promise_all 18 3 (fold (\<lambda>j. settle task 18 3 j (Inr ())) [0, 1, 2, 3, 4, 5] (start task 18 3 s))
    = Resolved (replicate 6 (Some ()) @ replicate 12 None)"
  by (simp add: start_def runOne.simps eval_nat_numeral promise_all_def settle_def)

text \<open>
  In general the starters leave \<open>min n (2 * limit - 1)\<close> workers running, which is more than
  \<open>limit\<close> as soon as the limit is at least 2 and there are more items than that.
\<close>

lemma runOne_fill:
  "nextIndex P = length (running P) \<Longrightarrow> length (running P) < limit \<Longrightarrow>
     length (running (runOne task n limit P)) = max (length (running P)) (min n limit) \<and>
     nextIndex (runOne task n limit P) = length (running (runOne task n limit P))"
proof (induction task n limit P rule: runOne.induct)
  case (1 task n limit P)
  show ?case
  proof (cases "n \<le> nextIndex P")
    case True
    then show ?thesis using "1.prems" by (subst (1 2 3) runOne.simps) simp
  next
    case False
    let ?P' = "P\<lparr>nextIndex := Suc (nextIndex P), shared := task (nextIndex P) (shared P),
                   running := running P @ [nextIndex P]\<rparr>"
    show ?thesis
    proof (cases "limit \<le> length (running ?P')")
      case True
      then show ?thesis using False "1.prems" by (subst (1 2 3) runOne.simps) (simp add: Let_def)
    next
      case lim: False
      have "length (running (runOne task n limit ?P')) = max (length (running ?P')) (min n limit) \<and>
            nextIndex (runOne task n limit ?P') = length (running (runOne task n limit ?P'))"
        using "1.IH"[OF False refl refl lim] "1.prems" lim by simp
      moreover have "runOne task n limit P = runOne task n limit ?P'"
        using False lim by (subst runOne.simps) (simp add: Let_def)
      ultimately show ?thesis using False lim "1.prems" by simp
    qed
  qed
qed

lemma runOne_one_more:
  assumes "nextIndex P = length (running P)" and "limit \<le> length (running P)"
    and "nextIndex P \<le> n"
  shows "length (running (runOne task n limit P)) = min n (Suc (length (running P))) \<and>
     nextIndex (runOne task n limit P) = length (running (runOne task n limit P)) \<and>
     nextIndex (runOne task n limit P) \<le> n"
  using assms by (subst (1 2 3 4) runOne.simps) (simp add: Let_def)

lemma funpow_runOne_one_more:
  assumes "nextIndex P = length (running P)" and "limit \<le> length (running P)"
    and "nextIndex P \<le> n"
  shows "length (running (((runOne task n limit) ^^ m) P)) = min n (length (running P) + m) \<and>
     nextIndex (((runOne task n limit) ^^ m) P) = length (running (((runOne task n limit) ^^ m) P)) \<and>
     nextIndex (((runOne task n limit) ^^ m) P) \<le> n \<and>
     limit \<le> length (running (((runOne task n limit) ^^ m) P))"
proof (induction m)
  case 0
  show ?case using assms by simp
next
  case (Suc m)
  let ?Q = "((runOne task n limit) ^^ m) P"
  from Suc have q: "nextIndex ?Q = length (running ?Q)" "limit \<le> length (running ?Q)"
    "nextIndex ?Q \<le> n" "length (running ?Q) = min n (length (running P) + m)" by blast+
  from runOne_one_more[OF q(1,2,3), where task = task] q assms(2) show ?case by (auto simp: min_def)
qed

lemma runOne_done:
  "n \<le> nextIndex P \<Longrightarrow> running (runOne task n limit P) = running P \<and>
     nextIndex (runOne task n limit P) = nextIndex P"
  by (subst (1 2) runOne.simps) simp

lemma funpow_runOne_done:
  "n \<le> nextIndex P \<Longrightarrow> running (((runOne task n limit) ^^ m) P) = running P \<and>
     nextIndex (((runOne task n limit) ^^ m) P) = nextIndex P"
  by (induction m) (simp_all add: runOne_done)

lemma start_in_flight:
  assumes "0 < limit"
  shows "length (running (start task n limit s :: ('r, 's) pool)) = min n (2 * limit - 1)"
proof (cases "n = 0")
  case True
  then show ?thesis by (simp add: start_def)
next
  case False
  let ?P0 = "\<lparr>nextIndex = 0, running = [], waiting = [], returned = 0, rejected = None,
        results = replicate n None, shared = s\<rparr> :: ('r, 's) pool"
  let ?f = "runOne task n limit :: ('r, 's) pool \<Rightarrow> ('r, 's) pool"
  let ?P1 = "?f ?P0"
  from False assms obtain m where m: "min limit n = Suc m" by (cases "min limit n") auto
  have st: "start task n limit s = (?f ^^ m) ?P1"
    unfolding start_def m by (simp add: funpow_swap1)
  have p1: "length (running ?P1) = min n limit" "nextIndex ?P1 = length (running ?P1)"
    using runOne_fill[where P = ?P0 and limit = limit and task = task and n = n] assms by simp_all
  show ?thesis
  proof (cases "limit \<le> n")
    case True
    then have "limit \<le> length (running ?P1)" "nextIndex ?P1 \<le> n" using p1 by simp_all
    from funpow_runOne_one_more[OF p1(2) this, where task = task and m = m] p1(1) True m
    show ?thesis unfolding st by (auto simp: min_def)
  next
    case lt: False
    then have "n \<le> nextIndex ?P1" using p1 by simp
    from funpow_runOne_done[OF this, where task = task and limit = limit and m = m] p1 lt assms
    show ?thesis unfolding st by (auto simp: min_def)
  qed
qed

text \<open>
  What the returned array does guarantee: its length is that of the input, and a slot that
  is filled holds the result of the worker of its own item.
\<close>

lemma runOne_results: "results (runOne task n limit P) = results P"
  by (rule runOne_rule[where I = "\<lambda>Q. results Q = results P"]) simp_all

lemma funpow_runOne_results: "results (((runOne task n limit) ^^ k) P) = results P"
  by (induction k) (simp_all add: runOne_results)

lemma settle_own_results:
  assumes "own_results items task (results P)"
  shows "own_results items task (results (settle tk (length items) limit j (task (items ! j) j) P))"
proof (cases "task (items ! j) j")
  case (Inl e)
  then show ?thesis using assms by (simp add: settle_def Let_def)
next
  case (Inr v)
  have "\<And>k rs. own_results items task rs \<Longrightarrow> own_results items task (rs[j := Some v])"
  proof -
    fix rs assume o: "own_results items task rs"
    show "own_results items task (rs[j := Some v])"
      unfolding own_results_def
    proof (intro conjI allI impI)
      show "length (rs[j := Some v]) = length items" using o by (simp add: own_results_def)
    next
      fix k assume k: "k < length items"
      show "rs[j := Some v] ! k = None \<or>
          (\<exists>w. rs[j := Some v] ! k = Some w \<and> task (items ! k) k = Inr w)"
      proof (cases "k = j")
        case True
        then show ?thesis using k o Inr by (simp add: own_results_def)
      next
        case False
        then show ?thesis using k o by (simp add: own_results_def)
      qed
    qed
  qed
  then show ?thesis using assms Inr
    by (simp add: settle_def Let_def funpow_runOne_results)
qed

lemma until_settled_own_results:
  assumes "own_results items task (results P)"
  shows "own_results items task
    (results (until_settled fin
       (\<lambda>j P. if j \<in> set (running P)
              then settle tk (length items) limit j (task (items ! j) j) P else P) sched P))"
  using assms
proof (induction sched arbitrary: P)
  case Nil
  then show ?case by simp
next
  case (Cons j js)
  then show ?case using settle_own_results[of items task P tk limit j] by simp
qed

lemma filled_slots_hold_own_result:
  assumes "mapWithConcurrency items limit task sched = Resolved rs"
  shows "own_results items task rs"
proof -
  define P where "P = until_settled (\<lambda>P. promise_all (length items) limit P \<noteq> Unsettled)
      (\<lambda>j P. if j \<in> set (running P)
             then settle (\<lambda>c s. s) (length items) limit j (task (items ! j) j) P else P) sched
      (start (\<lambda>c s. s) (length items) limit ())"
  have "own_results items task (results (start (\<lambda>c s. s) (length items) limit ()))"
    by (simp add: start_def funpow_runOne_results own_results_def)
  then have o: "own_results items task (results P)"
    unfolding P_def by (rule until_settled_own_results)
  have "mapWithConcurrency items limit task sched = promise_all (length items) limit P"
    unfolding mapWithConcurrency_def P_def Let_def ..
  then have "promise_all (length items) limit P = Resolved rs" using assms by simp
  then have "rs = results P"
    by (simp add: promise_all_def split: option.splits if_splits)
  then show ?thesis using o by simp
qed

section \<open>Invariants of a run\<close>

lemma sum_list_map_update:
  fixes f :: "'a \<Rightarrow> 'b::comm_monoid_add"
  shows "j < length xs \<Longrightarrow>
     sum_list (map f (xs[j := y])) + f (xs ! j) = sum_list (map f xs) + f y"
proof (induction xs arbitrary: j)
  case Nil
  then show ?case by simp
next
  case (Cons x xs)
  then show ?case by (cases j) (simp_all add: ac_simps)
qed

lemma rounds_gt: "real i < p \<Longrightarrow> i < rounds p"
  unfolding rounds_def by linarith

lemma rounds_ge: "p \<le> real (rounds p)"
  unfolding rounds_def by linarith

lemma rounds_nonpos: "\<not> 0 < p \<Longrightarrow> rounds p = 0"
  unfolding rounds_def by linarith

lemma rounds_whole: "rounds (real p) = p"
  by (simp add: rounds_def)

lemma crawl_launch_fields:
  "tasks (crawl_launch job c C) = (tasks C)[c := launch_task (pages job)]"
  "length (chainStatus (crawl_launch job c C)) = length (chainStatus C)"
  "completedPages (crawl_launch job c C) = completedPages C"
  "completedChains (crawl_launch job c C) = completedChains C + has_returned (launch_task (pages job))"
  "allResults (crawl_launch job c C) = allResults C"
  "k \<noteq> c \<Longrightarrow> chainStatus (crawl_launch job c C) ! k = chainStatus C ! k"
  by (simp_all add: crawl_launch_def chain_done_def chain_finally_def launch_task_def
      has_returned_def Let_def)

lemma launch_task_facts:
  "launch_task p \<noteq> NotStarted" "task_ok p (launch_task p)" "in_flight (launch_task p)"
  "page_bound p (launch_task p) = 0"
  by (simp_all add: launch_task_def task_ok_def in_flight_def page_bound_def rounds_nonpos)

lemma launch_inv_tasks:
  assumes "inv_tasks job Q" and "nextIndex Q < totalChains job"
  shows "inv_tasks job (launched job Q)"
  using assms unfolding inv_tasks_def launched_def
  by (auto simp: crawl_launch_fields launch_task_facts nth_list_update)

lemma launch_inv_counts:
  assumes "inv_tasks job Q" and "inv_counts job Q" and "nextIndex Q < totalChains job"
  shows "inv_counts job (launched job Q)"
proof -
  let ?c = "nextIndex Q"
  have c: "?c < length (tasks (shared Q))" and ns: "tasks (shared Q) ! ?c = NotStarted"
    using assms(1,3) by (auto simp: inv_tasks_def)
  have "sum_list (map (page_bound (pages job)) ((tasks (shared Q))[?c := launch_task (pages job)]))
      = sum_list (map (page_bound (pages job)) (tasks (shared Q)))"
    using sum_list_map_update[OF c, of "page_bound (pages job)" "launch_task (pages job)"] ns
    by (simp add: launch_task_facts) (simp add: page_bound_def)
  moreover have "sum_list (map has_returned ((tasks (shared Q))[?c := launch_task (pages job)]))
      = sum_list (map has_returned (tasks (shared Q))) + has_returned (launch_task (pages job))"
    using sum_list_map_update[OF c, of has_returned "launch_task (pages job)"] ns
    by (simp add: has_returned_def)
  ultimately show ?thesis
    using assms(2) unfolding inv_counts_def launched_def by (simp add: crawl_launch_fields)
qed

lemma launch_inv_pool:
  assumes "inv_tasks job Q" and "inv_pool job Q" and "nextIndex Q < totalChains job"
  shows "inv_pool job (launched job Q)"
proof -
  let ?c = "nextIndex Q"
  have c: "?c < length (tasks (shared Q))" using assms(1,3) by (simp add: inv_tasks_def)
  have r: "returned Q = 0" using assms(2,3) by (auto simp: inv_pool_def)
  have run: "\<forall>k. (k \<in> set (running Q @ [?c]))
      = (k < totalChains job \<and> in_flight ((tasks (shared Q))[?c := launch_task (pages job)] ! k))"
    using assms(2,3) c by (auto simp: inv_pool_def nth_list_update launch_task_facts)
  have snaps: "\<forall>snap \<in> set (waiting Q). snap \<noteq> [] \<and> set snap \<subseteq> set (running Q @ [?c])"
    using assms(2) by (auto simp: inv_pool_def)
  show ?thesis
    unfolding inv_pool_def launched_def using run snaps r assms(2)
    by (simp add: crawl_launch_fields inv_pool_def)
qed

lemma runOne_crawl_inv:
  assumes "crawl_inv job P"
  shows "crawl_inv job (runOne (crawl_launch job) (totalChains job) limit P)"
proof (rule runOne_rule[where I = "crawl_inv job", OF assms])
  fix Q assume "crawl_inv job Q" and "nextIndex Q < totalChains job"
  then have "crawl_inv job (launched job Q)"
    unfolding crawl_inv_def using launch_inv_tasks launch_inv_counts launch_inv_pool by blast
  then show "crawl_inv job (Q\<lparr>nextIndex := Suc (nextIndex Q),
      shared := crawl_launch job (nextIndex Q) (shared Q), running := running Q @ [nextIndex Q]\<rparr>)"
    by (simp add: launched_def)
next
  fix Q assume Q: "crawl_inv job Q" and "running Q \<noteq> []"
  then have "inv_pool job (Q\<lparr>waiting := waiting Q @ [running Q]\<rparr>)"
    unfolding crawl_inv_def inv_pool_def by simp
  then show "crawl_inv job (Q\<lparr>waiting := waiting Q @ [running Q]\<rparr>)"
    using Q by (simp add: crawl_inv_def inv_tasks_def inv_counts_def)
next
  fix Q assume Q: "crawl_inv job Q" and "totalChains job \<le> nextIndex Q"
  then have "inv_pool job (Q\<lparr>returned := Suc (returned Q)\<rparr>)"
    unfolding crawl_inv_def inv_pool_def by simp
  then show "crawl_inv job (Q\<lparr>returned := Suc (returned Q)\<rparr>)"
    using Q by (simp add: crawl_inv_def inv_tasks_def inv_counts_def)
qed

lemma page_body_shape:
  assumes "real i < pages job"
  shows "(\<exists>e. page_body job j i m a C = Inl e) \<or>
     (\<exists>C' m'. page_body job j i m a C = Inr (C', Continue (Suc i) m') \<and>
        real (Suc i) < pages job \<and>
        tasks C' = tasks C \<and> length (chainStatus C') = length (chainStatus C) \<and>
        completedPages C' = completedPages C + 1 \<and> completedChains C' = completedChains C \<and>
        allResults C' = allResults C) \<or>
     (\<exists>C' m'. page_body job j i m a C = Inr (C', Break m') \<and>
        tasks C' = tasks C \<and> length (chainStatus C') = length (chainStatus C) \<and>
        completedPages C' \<le> completedPages C + (real (rounds (pages job)) - real i) \<and>
        completedChains C' = completedChains C \<and> allResults C' = allResults C)"
proof (cases a)
  case (Failed e)
  then show ?thesis by (simp add: page_body_def)
next
  case (Transfers ts)
  have r: "pages job \<le> real (rounds (pages job))" "real i + 1 \<le> real (rounds (pages job))"
    using rounds_ge[of "pages job"] rounds_gt[OF assms] by simp_all
  show ?thesis
  proof (cases "ts = []")
    case True
    then show ?thesis using Transfers r by (simp add: page_body_def)
  next
    case False
    show ?thesis
    proof (cases "forEach_tx ts m (entityName job)")
      case (Inl e)
      then show ?thesis using Transfers False by (simp add: page_body_def)
    next
      case (Inr m')
      then show ?thesis using Transfers False r
        by (cases "real (Suc i) < pages job") (simp_all add: page_body_def Let_def)
    qed
  qed
qed

lemma crawl_step_shape:
  assumes "real i < pages job"
  shows "length (chainStatus (crawl_step job j i m C)) = length (chainStatus C) \<and>
    ((\<exists>m'. tasks (crawl_step job j i m C) = (tasks C)[j := Fetching (Suc i) m'] \<and>
           real (Suc i) < pages job \<and>
           completedPages (crawl_step job j i m C) = completedPages C + 1 \<and>
           completedChains (crawl_step job j i m C) = completedChains C) \<or>
     (tasks (crawl_step job j i m C) = (tasks C)[j := Settling] \<and>
      completedPages (crawl_step job j i m C)
        \<le> completedPages C + (real (rounds (pages job)) - real i) \<and>
      completedChains (crawl_step job j i m C) = completedChains C + 1))"
  using page_body_shape[OF assms, of j m "fetchTransfers job j i" C] rounds_gt[OF assms]
  by (elim disjE exE conjE)
     (auto simp: crawl_step_def chain_failed_def chain_done_def chain_finally_def Let_def)

lemma step_inv:
  assumes inv: "crawl_inv job P" and j: "j < totalChains job"
    and f: "tasks (shared P) ! j = Fetching i m"
  shows "crawl_inv job (stepped job j i m P)"
proof -
  let ?C = "shared P" and ?C' = "crawl_step job j i m (shared P)"
  let ?p = "pages job"
  from inv have it: "inv_tasks job P" and ic: "inv_counts job P" and ip: "inv_pool job P"
    by (simp_all add: crawl_inv_def)
  have len: "j < length (tasks ?C)" using it j by (simp add: inv_tasks_def)
  have i: "real i < ?p" using it j f by (auto simp: inv_tasks_def task_ok_def)
  have "\<exists>t. length (chainStatus ?C') = length (chainStatus ?C) \<and>
      tasks ?C' = (tasks ?C)[j := t] \<and> t \<noteq> NotStarted \<and> task_ok ?p t \<and> in_flight t \<and>
      completedPages ?C' + real i \<le> completedPages ?C + page_bound ?p t \<and>
      completedChains ?C' = completedChains ?C + has_returned t"
  proof -
    from crawl_step_shape[OF i, of j m ?C]
    have st: "length (chainStatus ?C') = length (chainStatus ?C)" and
      d: "(\<exists>m'. tasks ?C' = (tasks ?C)[j := Fetching (Suc i) m'] \<and> real (Suc i) < ?p \<and>
             completedPages ?C' = completedPages ?C + 1 \<and> completedChains ?C' = completedChains ?C) \<or>
          (tasks ?C' = (tasks ?C)[j := Settling] \<and>
             completedPages ?C' \<le> completedPages ?C + (real (rounds ?p) - real i) \<and>
             completedChains ?C' = completedChains ?C + 1)"
      by blast+
    from d show ?thesis
    proof
      assume "\<exists>m'. tasks ?C' = (tasks ?C)[j := Fetching (Suc i) m'] \<and> real (Suc i) < ?p \<and>
             completedPages ?C' = completedPages ?C + 1 \<and> completedChains ?C' = completedChains ?C"
      then obtain m' where "tasks ?C' = (tasks ?C)[j := Fetching (Suc i) m']" "real (Suc i) < ?p"
        "completedPages ?C' = completedPages ?C + 1" "completedChains ?C' = completedChains ?C"
        by blast
      then show ?thesis using st
        by (intro exI[of _ "Fetching (Suc i) m'"])
           (simp add: task_ok_def in_flight_def page_bound_def has_returned_def)
    next
      assume "tasks ?C' = (tasks ?C)[j := Settling] \<and>
             completedPages ?C' \<le> completedPages ?C + (real (rounds ?p) - real i) \<and>
             completedChains ?C' = completedChains ?C + 1"
      then show ?thesis using st i
        by (intro exI[of _ Settling])
           (auto simp: task_ok_def in_flight_def page_bound_def has_returned_def)
    qed
  qed
  then obtain t where
    st: "length (chainStatus ?C') = length (chainStatus ?C)"
    and t: "tasks ?C' = (tasks ?C)[j := t]"
    and tk: "t \<noteq> NotStarted" "task_ok ?p t" "in_flight t"
    and cp: "completedPages ?C' + real i \<le> completedPages ?C + page_bound ?p t"
    and cc: "completedChains ?C' = completedChains ?C + has_returned t"
    by blast
  have "inv_tasks job (stepped job j i m P)"
    using it f t tk st j len unfolding inv_tasks_def stepped_def
    by (auto simp: nth_list_update)
  moreover have "inv_counts job (stepped job j i m P)"
  proof -
    have "sum_list (map (page_bound ?p) ((tasks ?C)[j := t])) + real i
        = sum_list (map (page_bound ?p) (tasks ?C)) + page_bound ?p t"
      using sum_list_map_update[OF len, of "page_bound ?p" t] f by (simp add: page_bound_def)
    moreover have "sum_list (map has_returned ((tasks ?C)[j := t]))
        = sum_list (map has_returned (tasks ?C)) + has_returned t"
      using sum_list_map_update[OF len, of has_returned t] f by (simp add: has_returned_def)
    ultimately show ?thesis
      using ic cp cc t unfolding inv_counts_def stepped_def by simp
  qed
  moreover have "inv_pool job (stepped job j i m P)"
  proof -
    have "\<forall>k. in_flight ((tasks ?C)[j := t] ! k) = in_flight (tasks ?C ! k) \<or> \<not> k < totalChains job"
      using f tk(3) len by (auto simp: nth_list_update in_flight_def)
    then show ?thesis
      using ip t unfolding inv_pool_def stepped_def by auto
  qed
  ultimately show ?thesis by (simp add: crawl_inv_def)
qed

lemma settle_chain_eq:
  "settle_chain job j P =
     ((runOne (crawl_launch job) (totalChains job) 3) ^^
        (length (filter (\<lambda>snap. j \<in> set snap) (waiting P)))) (finished_book j P)"
  by (simp add: settle_chain_def settle_def finished_book_def Let_def)

lemma book_inv:
  assumes inv: "crawl_inv job P" and j: "j < totalChains job"
    and f: "tasks (shared P) ! j = Settling"
  shows "crawl_inv job (finished_book j P)"
proof -
  let ?C = "shared P"
  let ?p = "pages job"
  from inv have it: "inv_tasks job P" and ic: "inv_counts job P" and ip: "inv_pool job P"
    by (simp_all add: crawl_inv_def)
  have len: "j < length (tasks ?C)" using it j by (simp add: inv_tasks_def)
  have "inv_tasks job (finished_book j P)"
    using it f j len unfolding inv_tasks_def finished_book_def
    by (auto simp: nth_list_update task_ok_def)
  moreover have "inv_counts job (finished_book j P)"
  proof -
    have "sum_list (map (page_bound ?p) ((tasks ?C)[j := Finished]))
        = sum_list (map (page_bound ?p) (tasks ?C))"
      using sum_list_map_update[OF len, of "page_bound ?p" Finished] f by (simp add: page_bound_def)
    moreover have "sum_list (map has_returned ((tasks ?C)[j := Finished]))
        = sum_list (map has_returned (tasks ?C))"
      using sum_list_map_update[OF len, of has_returned Finished] f by (simp add: has_returned_def)
    ultimately show ?thesis
      using ic unfolding inv_counts_def finished_book_def by simp
  qed
  moreover have "inv_pool job (finished_book j P)"
  proof -
    have run: "\<forall>k. (k \<in> set (removeAll j (running P)))
        = (k < totalChains job \<and> in_flight ((tasks ?C)[j := Finished] ! k))"
      using ip len by (auto simp: inv_pool_def nth_list_update in_flight_def)
    have snaps: "\<forall>snap \<in> set (filter (\<lambda>snap. j \<notin> set snap) (waiting P)).
        snap \<noteq> [] \<and> set snap \<subseteq> set (removeAll j (running P))"
      using ip by (auto simp: inv_pool_def)
    show ?thesis
      unfolding inv_pool_def finished_book_def using run snaps ip
      by (simp add: inv_pool_def)
  qed
  ultimately show ?thesis by (simp add: crawl_inv_def)
qed

lemma settle_chain_inv:
  assumes "run_inv job P" and "j < totalChains job" and "tasks (shared P) ! j = Settling"
  shows "run_inv job (settle_chain job j P)"
proof -
  let ?w = "length (filter (\<lambda>snap. j \<in> set snap) (waiting P))"
  have "crawl_inv job (finished_book j P)"
    using book_inv assms by (simp add: run_inv_def)
  then have "crawl_inv job (settle_chain job j P)"
    unfolding settle_chain_eq by (rule funpow_rule) (rule runOne_crawl_inv)
  moreover have "?w + length (filter (\<lambda>snap. j \<notin> set snap) (waiting P)) = length (waiting P)"
    using sum_length_filter_compl[of "\<lambda>snap. j \<in> set snap" "waiting P"] by simp
  then have "returned (settle_chain job j P) + length (waiting (settle_chain job j P))
      = returned P + length (waiting P)"
    unfolding settle_chain_eq funpow_runOne_count by (simp add: finished_book_def)
  ultimately show ?thesis using assms(1) by (simp add: run_inv_def)
qed

lemma stepped_inv:
  assumes "run_inv job P" and "j < totalChains job" and "tasks (shared P) ! j = Fetching i m"
  shows "run_inv job (stepped job j i m P)"
  using step_inv[OF _ assms(2,3)] assms(1) by (simp add: run_inv_def stepped_def)

lemma deliver_inv:
  assumes "run_inv job P"
  shows "run_inv job (deliver job j P)"
proof (cases "j < length (tasks (shared P))")
  case False
  then show ?thesis using assms by (simp add: deliver_def)
next
  case True
  then have j: "j < totalChains job"
    using assms by (simp add: run_inv_def crawl_inv_def inv_tasks_def)
  show ?thesis
  proof (cases "tasks (shared P) ! j")
    case NotStarted
    then show ?thesis using assms True by (simp add: deliver_def)
  next
    case (Fetching i m)
    have s: "run_inv job (stepped job j i m P)" by (rule stepped_inv[OF assms j Fetching])
    show ?thesis
    proof (cases "tasks (crawl_step job j i m (shared P)) ! j = Settling")
      case st: True
      then have "run_inv job (settle_chain job j (stepped job j i m P))"
        using settle_chain_inv[OF s j] by (simp add: stepped_def)
      then show ?thesis using True Fetching st by (simp add: deliver_def stepped_def Let_def)
    next
      case False
      then show ?thesis using True Fetching s by (simp add: deliver_def stepped_def Let_def)
    qed
  next
    case Settling
    then show ?thesis using settle_chain_inv[OF assms j] True by (simp add: deliver_def)
  next
    case Finished
    then show ?thesis using assms True by (simp add: deliver_def)
  qed
qed

lemma start_inv: "run_inv job (run_start job)"
proof -
  let ?n = "totalChains job"
  let ?P0 = "\<lparr>nextIndex = 0, running = [], waiting = [], returned = 0, rejected = None,
        results = replicate ?n None,
        shared = \<lparr>allResults = [], completedChains = 0, completedPages = 0,
          chainStatus = replicate ?n NotBegun, appended = [], progress = [],
          tasks = replicate ?n NotStarted\<rparr>\<rparr> :: (unit, crawl) pool"
  have "crawl_inv job ?P0"
    by (simp add: crawl_inv_def inv_tasks_def inv_counts_def inv_pool_def task_ok_def
        in_flight_def has_returned_def page_bound_def sum_list_replicate)
  then have "crawl_inv job (run_start job)"
    unfolding run_start_def start_def by (rule funpow_rule) (rule runOne_crawl_inv)
  moreover have "returned (run_start job) + length (waiting (run_start job)) = min 3 ?n"
    unfolding run_start_def start_def funpow_runOne_count by simp
  ultimately show ?thesis by (simp add: run_inv_def)
qed

lemma fold_deliver_inv: "run_inv job P \<Longrightarrow> run_inv job (fold (deliver job) js P)"
  by (induction js arbitrary: P) (simp_all add: deliver_inv)

lemma run_events_inv: "run_inv job (run_events job sched)"
  unfolding run_events_def by (rule fold_deliver_inv[OF start_inv])



lemma sum_list_bounded:
  "(\<And>x. x \<in> set xs \<Longrightarrow> f x \<le> (c::real)) \<Longrightarrow> sum_list (map f xs) \<le> real (length xs) * c"
  by (induction xs) (simp_all add: add_mono algebra_simps)

lemma inv_completedPages:
  assumes "run_inv job P"
  shows "completedPages (shared P) \<le> real (totalChains job) * real (rounds (pages job))"
proof -
  from assms have it: "inv_tasks job P" and ic: "inv_counts job P"
    by (simp_all add: run_inv_def crawl_inv_def)
  have "\<And>t. t \<in> set (tasks (shared P)) \<Longrightarrow> page_bound (pages job) t \<le> real (rounds (pages job))"
  proof -
    fix t assume "t \<in> set (tasks (shared P))"
    then obtain k where "k < length (tasks (shared P))" "tasks (shared P) ! k = t"
      by (auto simp: in_set_conv_nth)
    then have "task_ok (pages job) t" using it by (auto simp: inv_tasks_def)
    then show "page_bound (pages job) t \<le> real (rounds (pages job))"
      by (cases t) (auto simp: task_ok_def page_bound_def dest: rounds_gt)
  qed
  then have "sum_list (map (page_bound (pages job)) (tasks (shared P)))
      \<le> real (length (tasks (shared P))) * real (rounds (pages job))"
    by (rule sum_list_bounded)
  then show ?thesis using it ic by (simp add: inv_tasks_def inv_counts_def)
qed

lemma whole_completedPages:
  assumes "run_inv job P" and "pages job = real p"
  shows "completedPages (shared P) \<le> totalPages job"
  using inv_completedPages[OF assms(1)] assms(2) by (simp add: totalPages_def rounds_whole)

section \<open>The rows of a run can be exported\<close>

lemma set_obj_set: "set (obj_set k v m) \<subseteq> insert (k, v) (set m)"
  by (induction m) (auto split: if_splits)

lemma extractHotWallet_printable:
  assumes "extractHotWallet r m n = Inr m'" and "printable_map m"
  shows "printable_map m'"
proof (cases "qualifies r n")
  case False
  then show ?thesis using assms by (simp add: extractHotWallet_eq)
next
  case True
  then obtain k w where k: "key_of r = Inr k" and w: "row_of r = Inr w"
    and m': "m' = obj_set k w m"
    using assms(1) by (auto simp: extractHotWallet_eq split: sum.splits)
  from k obtain a c where "to_string (opt_prop r ''address'') = Inr a"
    "to_string (opt_prop r ''chain'') = Inr c"
    by (auto simp: key_of_def dedup_key_def split: sum.splits)
  then have "printable_row w"
    using w by (auto simp: row_of_def make_row_def printable_row_def printable_def)
  then show ?thesis
    using assms(2) set_obj_set[of k w m] unfolding m' printable_map_def by auto
qed

lemma extract_tx_printable:
  "extract_tx tx m n = Inr m' \<Longrightarrow> printable_map m \<Longrightarrow> printable_map m'"
  by (auto simp: extract_tx_def split: sum.splits if_splits dest: extractHotWallet_printable)

lemma forEach_tx_printable:
  "forEach_tx ts m n = Inr m' \<Longrightarrow> printable_map m \<Longrightarrow> printable_map m'"
proof (induction ts arbitrary: m)
  case Nil
  then show ?case by simp
next
  case (Cons tx ts)
  from forEach_tx_Cons[OF Cons.prems(1)] obtain m1
    where s1: "extract_tx tx m n = Inr m1" and s2: "forEach_tx ts m1 n = Inr m'" by blast
  show ?case by (rule Cons.IH[OF s2 extract_tx_printable[OF s1 Cons.prems(2)] ])
qed

lemma page_body_printable:
  assumes "page_body job j i m a C = Inr (C', nxt)" and "printable_map m"
  shows "printable_map (merged_of nxt) \<and> allResults C' = allResults C \<and> tasks C' = tasks C"
proof (cases a)
  case (Failed e)
  then show ?thesis using assms(1) by (simp add: page_body_def)
next
  case (Transfers ts)
  show ?thesis
  proof (cases "ts = []")
    case True
    then show ?thesis using Transfers assms by (auto simp: page_body_def merged_of_def)
  next
    case False
    show ?thesis
    proof (cases "forEach_tx ts m (entityName job)")
      case (Inl e)
      then show ?thesis using Transfers False assms(1) by (simp add: page_body_def)
    next
      case (Inr m')
      from forEach_tx_printable[OF Inr assms(2)] have "printable_map m'" .
      then show ?thesis using Transfers False Inr assms(1)
        by (auto simp: page_body_def Let_def merged_of_def split: if_splits)
    qed
  qed
qed

lemma printable_rows_update:
  assumes "printable_rows C" and "printable_task t" and "tasks C' = (tasks C)[j := t]"
    and "\<forall>w \<in> set (allResults C'). printable_row w"
  shows "printable_rows C'"
  using assms set_update_subset_insert[of "tasks C" j t] unfolding printable_rows_def by auto

lemma crawl_step_printable:
  assumes C: "printable_rows C" and j: "j < length (tasks C)" and f: "tasks C ! j = Fetching i m"
  shows "printable_rows (crawl_step job j i m C)"
proof -
  have "Fetching i m \<in> set (tasks C)" using nth_mem[OF j] f by simp
  then have "printable_task (Fetching i m)" using C by (simp add: printable_rows_def)
  then have m: "printable_map m" by (simp add: printable_task_def)
  have r: "\<forall>w \<in> set (allResults C). printable_row w" using C by (simp add: printable_rows_def)
  show ?thesis
  proof (cases "page_body job j i m (fetchTransfers job j i) C")
    case (Inl e)
    show ?thesis
      by (rule printable_rows_update[OF C, of Settling _ j])
         (simp_all add: crawl_step_def Inl chain_failed_def chain_finally_def printable_task_def r)
  next
    case (Inr x)
    obtain C' nxt where x: "x = (C', nxt)" by (cases x)
    from page_body_printable[OF Inr[unfolded x] m]
    have p: "printable_map (merged_of nxt)" "allResults C' = allResults C" "tasks C' = tasks C"
      by simp_all
    show ?thesis
    proof (cases nxt)
      case (Continue i' m')
      show ?thesis
        by (rule printable_rows_update[OF C, of "Fetching i' m'" _ j])
           (use p Continue r in \<open>simp_all add: crawl_step_def Inr x printable_task_def merged_of_def\<close>)
    next
      case (Break m')
      show ?thesis
        by (rule printable_rows_update[OF C, of Settling _ j])
           (use p Break r in \<open>auto simp: crawl_step_def Inr x chain_done_def chain_finally_def
              printable_task_def merged_of_def printable_map_def Let_def\<close>)
    qed
  qed
qed

lemma crawl_launch_printable:
  assumes "printable_rows C"
  shows "printable_rows (crawl_launch job c C)"
  by (rule printable_rows_update[OF assms, of "launch_task (pages job)" _ c])
     (use assms in \<open>simp_all add: crawl_launch_fields launch_task_def printable_task_def
        printable_map_def printable_rows_def\<close>)

lemma runOne_printable:
  assumes "printable_rows (shared P)"
  shows "printable_rows (shared (runOne (crawl_launch job) n limit P))"
  by (rule runOne_rule[where I = "\<lambda>Q. printable_rows (shared Q)", OF assms])
     (simp_all add: crawl_launch_printable)

lemma settle_chain_printable:
  assumes "printable_rows (shared P)"
  shows "printable_rows (shared (settle_chain job j P))"
proof -
  have "printable_rows (shared (finished_book j P))"
    by (rule printable_rows_update[OF assms, of Finished _ j])
       (use assms in \<open>simp_all add: finished_book_def printable_task_def printable_rows_def\<close>)
  then show ?thesis
    unfolding settle_chain_eq
    by (rule funpow_rule[where I = "\<lambda>Q. printable_rows (shared Q)"]) (rule runOne_printable)
qed

lemma deliver_printable:
  assumes "printable_rows (shared P)"
  shows "printable_rows (shared (deliver job j P))"
proof (cases "j < length (tasks (shared P))")
  case False
  then show ?thesis using assms by (simp add: deliver_def)
next
  case True
  show ?thesis
  proof (cases "tasks (shared P) ! j")
    case NotStarted
    then show ?thesis using assms True by (simp add: deliver_def)
  next
    case (Fetching i m)
    have s: "printable_rows (crawl_step job j i m (shared P))"
      by (rule crawl_step_printable[OF assms True Fetching])
    then have "printable_rows (shared (settle_chain job j (P\<lparr>shared := crawl_step job j i m (shared P)\<rparr>)))"
      using settle_chain_printable[of "P\<lparr>shared := crawl_step job j i m (shared P)\<rparr>"] by simp
    then show ?thesis using True Fetching s by (simp add: deliver_def Let_def)
  next
    case Settling
    then show ?thesis using settle_chain_printable[OF assms] True by (simp add: deliver_def)
  next
    case Finished
    then show ?thesis using assms True by (simp add: deliver_def)
  qed
qed

lemma run_start_printable: "printable_rows (shared (run_start job))"
  unfolding run_start_def start_def
  by (rule funpow_rule[where I = "\<lambda>Q. printable_rows (shared Q)"])
     (simp add: printable_rows_def printable_task_def, erule runOne_printable)

lemma run_events_printable: "printable_rows (shared (run_events job sched))"
proof -
  have "\<And>P. printable_rows (shared P) \<Longrightarrow> printable_rows (shared (fold (deliver job) sched P))"
    by (induction sched) (simp_all add: deliver_printable)
  then show ?thesis unfolding run_events_def using run_start_printable by blast
qed

lemma run_settled_printable: "printable_rows (shared (run_settled job sched))"
proof -
  have "\<And>P. printable_rows (shared P) \<Longrightarrow>
      printable_rows (shared (until_settled fin (deliver job) sched P))" for fin
    by (induction sched) (simp_all add: deliver_printable)
  then show ?thesis unfolding run_settled_def using run_start_printable by blast
qed

lemma printable_rows_export:
  assumes "\<forall>w \<in> set rows. printable_row w"
  shows "\<exists>s. toCSV rows = Inr s"
  using rows_fields_printable[OF assms] by (auto simp: toCSV_def)

lemma run_rows_can_be_exported:
  "\<exists>s. toCSV (allResults (shared (run_events job sched))) = Inr s"
  by (rule printable_rows_export) (use run_events_printable[of job sched] in \<open>simp add: printable_rows_def\<close>)

lemma returned_rows_can_be_exported:
  assumes "runCrawler job sched = Some (Inr rows)"
  shows "\<exists>s. toCSV rows = Inr s"
proof -
  from assms have "rows = allResults (shared (run_settled job sched))"
    by (auto simp: runCrawler_def Let_def split: outcome.splits)
  then show ?thesis
    using run_settled_printable[of job sched] printable_rows_export[of rows]
    by (simp add: printable_rows_def)
qed

section \<open>Every run can be completed\<close>













section \<open>A chain that fails\<close>








section \<open>Page progress\<close>

lemma extract_tx_any_map: "isl (extract_tx tx m n) = isl (extract_tx tx m0 n)"
proof (cases "get_prop tx ''fromAddressOwner''")
  case (Inl e)
  then show ?thesis by (simp add: extract_tx_def)
next
  case (Inr owner)
  show ?thesis
  proof (cases "truthy owner")
    case True
    then show ?thesis using Inr extractHotWallet_any_map[of owner m n m0]
      by (simp add: extract_tx_def)
  next
    case False
    show ?thesis
    proof (cases "get_prop tx ''fromAddress''")
      case (Inl e)
      then show ?thesis using Inr False by (simp add: extract_tx_def)
    next
      case a: (Inr a)
      then show ?thesis using Inr False extractHotWallet_any_map[of a m n m0]
        by (simp add: extract_tx_def)
    qed
  qed
qed

lemma forEach_tx_any_map: "isl (forEach_tx ts m n) = isl (forEach_tx ts m0 n)"
proof (induction ts arbitrary: m m0)
  case Nil
  show ?case by simp
next
  case (Cons tx ts)
  show ?case
  proof (cases "extract_tx tx m n")
    case (Inl e)
    then have "isl (extract_tx tx m0 n)" using extract_tx_any_map[of tx m n m0] by simp
    then obtain e' where "extract_tx tx m0 n = Inl e'" by (cases "extract_tx tx m0 n") simp_all
    then show ?thesis using Inl by simp
  next
    case (Inr m1)
    then have "\<not> isl (extract_tx tx m0 n)" using extract_tx_any_map[of tx m n m0] by simp
    then obtain m1' where "extract_tx tx m0 n = Inr m1'" by (cases "extract_tx tx m0 n") simp_all
    then show ?thesis using Inr Cons.IH[of m1 m1'] by simp
  qed
qed

lemma page_body_processed:
  assumes "processed job a" and "real (Suc i) < pages job"
  shows "\<exists>C' m'. page_body job j i m a C = Inr (C', Continue (Suc i) m') \<and>
           completedPages C' = completedPages C + 1 \<and>
           progress C' = progress C @ [completedPages C + 1]"
proof -
  from assms(1) obtain ts where a: "a = Transfers ts" "ts \<noteq> []"
    and ok: "\<not> isl (forEach_tx ts [] (entityName job))"
    by (cases a) (auto simp: processed_def split: sum.splits)
  from ok have "\<not> isl (forEach_tx ts m (entityName job))"
    using forEach_tx_any_map[of ts m "entityName job" "[]"] by simp
  then obtain m' where "forEach_tx ts m (entityName job) = Inr m'"
    by (cases "forEach_tx ts m (entityName job)") simp_all
  then show ?thesis using a assms(2) by (simp add: page_body_def Let_def)
qed

lemma crawl_loop_exhausted:
  assumes "k \<le> i" and "real i < pages job"
    and "\<forall>q<i. processed job (fetchTransfers job j q)"
    and "fetchTransfers job j i = Transfers []"
  shows "progress (crawl_loop job j k m C)
           = progress C @ map (\<lambda>q. completedPages C + real q) [1..<Suc (i - k)]
               @ [completedPages C + (pages job - real k)] \<and>
         completedPages (crawl_loop job j k m C) = completedPages C + (pages job - real k)"
  using assms(1)
proof (induction "i - k" arbitrary: k m C)
  case 0
  then have k: "k = i" by simp
  show ?case
    unfolding k
    by (subst (1 2) crawl_loop.simps)
       (simp add: assms(4) page_body_def chain_done_def chain_finally_def Let_def)
next
  case (Suc d)
  then have lt: "k < i" and d: "d = i - Suc k" by simp_all
  have sk: "real (Suc k) < pages job" using lt assms(2) by simp
  from page_body_processed[OF _ sk, of "fetchTransfers job j k" j m C] assms(3) lt
  obtain C' m' where pb: "page_body job j k m (fetchTransfers job j k) C = Inr (C', Continue (Suc k) m')"
    and cp: "completedPages C' = completedPages C + 1"
    and pr: "progress C' = progress C @ [completedPages C + 1]"
    by blast
  have loop: "crawl_loop job j k m C = crawl_loop job j (Suc k) m' C'"
    by (subst crawl_loop.simps) (simp add: pb)
  have ih: "progress (crawl_loop job j (Suc k) m' C')
           = progress C' @ map (\<lambda>q. completedPages C' + real q) [1..<Suc (i - Suc k)]
               @ [completedPages C' + (pages job - real (Suc k))] \<and>
         completedPages (crawl_loop job j (Suc k) m' C') = completedPages C' + (pages job - real (Suc k))"
    using Suc.hyps(1)[OF d] lt by simp
  have "map (\<lambda>q. completedPages C + real q) [1..<Suc (i - k)]
      = (completedPages C + 1) # map (\<lambda>q. completedPages C + 1 + real q) [1..<Suc (i - Suc k)]"
  proof -
    from lt obtain e where e: "i - k = Suc e" "i - Suc k = e"
      by (metis Suc_diff_Suc)
    have "[Suc 0..<Suc (Suc e)] = Suc 0 # [Suc (Suc 0)..<Suc (Suc e)]"
      by (rule upt_conv_Cons) simp
    then have "[1..<Suc (i - k)] = 1 # map Suc [1..<Suc (i - Suc k)]"
      unfolding e by (simp add: map_Suc_upt)
    then show ?thesis by (simp add: comp_def algebra_simps)
  qed
  then show ?case using ih cp pr unfolding loop by (simp add: algebra_simps)
qed

text \<open>
  Claim C4, as stated, fails, on two counts.  With a page count of two and a half, which
  \<^verbatim>\<open>init\<close> lets through, a chain whose pages all have records makes three rounds and
  adds 3 to \<^verbatim>\<open>completedPages\<close>, which is then above \<^verbatim>\<open>totalPages\<close>.  And with three
  pages of which the second is the first to come back empty, the first holding a
  \<^verbatim>\<open>null\<close> where a record should be, \<^verbatim>\<open>forEach\<close> throws on the first page, the chain
  fails and has added nothing to \<^verbatim>\<open>completedPages\<close>, where the claim has it add 3.
\<close>

theorem page_progress_misses_page_count:
  "pages fractional_job = 5 / 2 \<and>
   totalPages fractional_job = 5 / 2 \<and>
   progress (shared (run_events fractional_job [0, 0, 0])) = [1, 2, 3] \<and>
   tasks (shared (run_events fractional_job [0, 0, 0])) = [Finished] \<and>
   completedPages (shared (run_events fractional_job [0, 0, 0])) = 3 \<and>
   totalPages fractional_job < completedPages (shared (run_events fractional_job [0, 0, 0])) \<and>
   pages null_record_job = 3 \<and>
   fetchTransfers null_record_job 0 0 = Transfers [JNull] \<and>
   fetchTransfers null_record_job 0 1 = Transfers [] \<and>
   chainStatus (shared (run_events null_record_job [0])) = [FailedWith TypeError] \<and>
   tasks (shared (run_events null_record_job [0])) = [Finished] \<and>
   completedPages (shared (run_events null_record_job [0])) = 0"
  by (simp add: run_defs fractional_job_def null_record_job_def totalPages_def acme_transfer_def
      ex_defs)

text \<open>
  Claim C4, amended.  Let the page count be a whole number.  Then in every state of
  every run \<^verbatim>\<open>completedPages\<close> is at most \<^verbatim>\<open>totalPages\<close>.  And let page \<open>i\<close>, below the
  page count, be the first page of a chain that comes back empty, each page before it
  having come back with records and been processed without an exception.  Then the chain
  sets the progress bar \<open>i + 1\<close> times: after each of the \<open>i\<close> pages of records, with the
  counter one higher than before, and on the empty page, with the counter at its value
  before the chain plus the page count; so the chain adds exactly \<open>pages\<close> to
  \<^verbatim>\<open>completedPages\<close>.
\<close>

theorem exhausted_chain_counts_whole_page_count:
  assumes "pages job = real p"
  shows "(\<forall>sched. completedPages (shared (run_events job sched)) \<le> totalPages job) \<and>
         (\<forall>i j C. i < p \<and> (\<forall>q<i. processed job (fetchTransfers job j q)) \<and>
                   fetchTransfers job j i = Transfers [] \<longrightarrow>
            progress (crawlOneChain job j C)
              = progress C @ map (\<lambda>q. completedPages C + real q) [1..<Suc i]
                  @ [completedPages C + real p] \<and>
            completedPages (crawlOneChain job j C) = completedPages C + real p)"
proof (intro conjI allI impI)
  fix sched
  show "completedPages (shared (run_events job sched)) \<le> totalPages job"
    by (rule whole_completedPages[OF run_events_inv assms])
next
  fix i j and C :: crawl
  assume h: "i < p \<and> (\<forall>q<i. processed job (fetchTransfers job j q)) \<and>
                   fetchTransfers job j i = Transfers []"
  let ?C = "C\<lparr>chainStatus := (chainStatus C)[j := InProgress 0 (pages job) 0]\<rparr>"
  from h have i: "real i < pages job" by (simp add: assms)
  then have "0 < pages job" using of_nat_0_le_iff[of i] by linarith
  then have c: "crawlOneChain job j C = crawl_loop job j 0 [] ?C"
    by (simp add: crawlOneChain_def Let_def)
  from crawl_loop_exhausted[OF _ i, of 0 j "[]" ?C] h
  have "progress (crawl_loop job j 0 [] ?C)
           = progress C @ map (\<lambda>q. completedPages C + real q) [1..<Suc i]
               @ [completedPages C + real p] \<and>
         completedPages (crawl_loop job j 0 [] ?C) = completedPages C + real p"
    by (simp add: assms)
  then show "progress (crawlOneChain job j C)
              = progress C @ map (\<lambda>q. completedPages C + real q) [1..<Suc i]
                  @ [completedPages C + real p]"
    and "completedPages (crawlOneChain job j C) = completedPages C + real p"
    unfolding c by simp_all
qed

theorem exhausted_chain_counts_whole_page_count_witness:
  "pages exhausted_job = real 3 \<and>
   processed exhausted_job (fetchTransfers exhausted_job 0 0) \<and>
   fetchTransfers exhausted_job 0 1 = Transfers [] \<and>
   progress (crawlOneChain exhausted_job 0 (shared (run_start exhausted_job))) = [1, 3] \<and>
   completedPages (crawlOneChain exhausted_job 0 (shared (run_start exhausted_job))) = 3 \<and>
   completedPages (shared (run_events exhausted_job [0, 1, 0, 1])) = 6 \<and>
   totalPages exhausted_job = 6"
proof -
  have h0: "pages exhausted_job = real 3" by (simp add: exhausted_job_def)
  have h1: "(1::nat) < 3" by simp
  have h2: "processed exhausted_job (fetchTransfers exhausted_job 0 0)"
    by (simp add: exhausted_job_def processed_def acme_transfer_def ex_defs extract_tx_def
        extractHotWallet_def)
  then have h2': "\<forall>q<1. processed exhausted_job (fetchTransfers exhausted_job 0 q)" by simp
  have h3: "fetchTransfers exhausted_job 0 1 = Transfers []" by (simp add: exhausted_job_def)
  have s: "progress (shared (run_start exhausted_job)) = []"
    "completedPages (shared (run_start exhausted_job)) = 0"
    by (simp_all add: run_defs exhausted_job_def)
  have t: "totalPages exhausted_job = 6" by (simp add: totalPages_def totalChains_def exhausted_job_def)
  have e: "completedPages (shared (run_events exhausted_job [0, 1, 0, 1])) = 6"
    by (simp add: run_defs exhausted_job_def acme_transfer_def ex_defs)
  from exhausted_chain_counts_whole_page_count[OF h0] h1 h2' h3
  have "progress (crawlOneChain exhausted_job 0 (shared (run_start exhausted_job)))
          = progress (shared (run_start exhausted_job))
              @ map (\<lambda>q. completedPages (shared (run_start exhausted_job)) + real q) [1..<Suc 1]
              @ [completedPages (shared (run_start exhausted_job)) + real 3] \<and>
        completedPages (crawlOneChain exhausted_job 0 (shared (run_start exhausted_job)))
          = completedPages (shared (run_start exhausted_job)) + real 3"
    by blast
  then show ?thesis using s h0 h2 h3 t e by simp
qed

end
